theory Spec2Isabelle
  imports Main
begin

section \<open>Graphs and the services the truss computation calls\<close>

text \<open>
  An undirected graph as igraph stores it: a number of vertices and a list of edges, the
  position of an edge in the list being its id. The list may hold self-loops and parallel
  edges. Vertex ids, edge ids, supports and levels are non-negative C integers; they are
  modelled as natural numbers (no value of a run comes near the limits of the C types).
\<close>

record igraph =
  vcount :: nat
  edges :: "(nat \<times> nat) list"

text \<open>
  Modelled from the spec: \<open>igraph_ecount\<close> and \<open>igraph_edge\<close> are not among the
  sources. The spec gives them as \<open>edge_count\<close> and \<open>edge_endpoints\<close>: the number of
  edges, and the two ends of the edge with a given id (an id out of range is an error).
\<close>

definition igraph_ecount :: "igraph \<Rightarrow> nat" where
  "igraph_ecount g = length (edges g)"

text \<open>Every endpoint is a vertex of the graph (igraph creates no other graph).\<close>

definition valid_graph :: "igraph \<Rightarrow> bool" where
  "valid_graph g = list_all (\<lambda>(a, b). a < vcount g \<and> b < vcount g) (edges g)"

text \<open>A simple graph: no self-loop, and no two edges between the same two vertices.\<close>

definition simple_graph :: "igraph \<Rightarrow> bool" where
  "simple_graph g =
     (list_all (\<lambda>(a, b). a \<noteq> b) (edges g) \<and>
      distinct (map (\<lambda>(a, b). (min a b, max a b)) (edges g)))"

definition igraph_edge :: "igraph \<Rightarrow> nat \<Rightarrow> (nat \<times> nat) option" where
  "igraph_edge g eid = (if eid < igraph_ecount g then Some (edges g ! eid) else None)"

text \<open>
  Modelled from the spec: \<open>igraph_get_eid\<close> is not among the sources. The spec gives it as
  \<open>resolve_edge\<close>: the id of an undirected edge between \<open>a\<close> and \<open>b\<close> (the first match
  if there are several), failing if there is none.
\<close>

fun first_eid :: "(nat \<times> nat) list \<Rightarrow> nat \<Rightarrow> nat \<Rightarrow> nat option" where
  "first_eid [] a b = None"
| "first_eid (e # es) a b =
     (if e = (a, b) \<or> e = (b, a) then Some 0 else map_option Suc (first_eid es a b))"

definition igraph_get_eid :: "igraph \<Rightarrow> nat \<Rightarrow> nat \<Rightarrow> nat option" where
  "igraph_get_eid g a b = first_eid (edges g) a b"

text \<open>
  Modelled from the spec: \<open>igraph_get_eids\<close> is not among the sources. It is
  \<open>resolve_edge\<close> on a vector of vertex pairs \<open>[a0, b0, a1, b1, ...]\<close>: the edge id of
  every pair; it fails when a pair has no edge, and when the vector has odd length.
\<close>

fun igraph_get_eids :: "igraph \<Rightarrow> nat list \<Rightarrow> nat list option" where
  "igraph_get_eids g [] = Some []"
| "igraph_get_eids g [a] = None"
| "igraph_get_eids g (a # b # ps) =
     (case igraph_get_eid g a b of
        None \<Rightarrow> None
      | Some e \<Rightarrow> map_option ((#) e) (igraph_get_eids g ps))"

text \<open>
  Modelled from the spec: \<open>igraph_adjlist_init\<close> and \<open>igraph_adjlist_sort\<close> are not among
  the sources. The spec describes the adjacency structure as the neighbours of every
  vertex, in ascending order, without self-loops and without duplicates for parallel edges.
  The call in \<open>igraph_i_trussness\<close> chooses by two flags what is dropped, so the model
  takes the flags: every edge at \<open>v\<close> contributes its other endpoint;
  \<open>IGRAPH_NO_LOOPS\<close> drops the self-loops, \<open>IGRAPH_NO_MULTIPLE\<close> keeps one entry per
  neighbour, \<open>IGRAPH_MULTIPLE\<close> keeps one entry per edge. \<open>igraph_adjlist_sort\<close> sorts
  every list, \<open>igraph_adjlist_get\<close> gives the list of a vertex.
\<close>

datatype igraph_neimode_t = IGRAPH_OUT | IGRAPH_IN | IGRAPH_ALL

datatype igraph_loops_t = IGRAPH_NO_LOOPS | IGRAPH_LOOPS_TWICE | IGRAPH_LOOPS_ONCE

datatype igraph_multiple_t = IGRAPH_NO_MULTIPLE | IGRAPH_MULTIPLE

definition other_ends :: "igraph_loops_t \<Rightarrow> nat \<Rightarrow> nat \<times> nat \<Rightarrow> nat list" where
  "other_ends loops v e =
     (case e of (a, b) \<Rightarrow>
        if a = v \<and> b = v then
          (case loops of IGRAPH_NO_LOOPS \<Rightarrow> [] | IGRAPH_LOOPS_ONCE \<Rightarrow> [v]
             | IGRAPH_LOOPS_TWICE \<Rightarrow> [v, v])
        else if a = v then [b]
        else if b = v then [a]
        else [])"

definition igraph_adjlist_init ::
  "igraph \<Rightarrow> igraph_neimode_t \<Rightarrow> igraph_loops_t \<Rightarrow> igraph_multiple_t \<Rightarrow> nat list list" where
  "igraph_adjlist_init g mode loops multiple =
     map (\<lambda>v. let ns = concat (map (other_ends loops v) (edges g))
              in if multiple = IGRAPH_NO_MULTIPLE then remdups ns else ns)
         [0..<vcount g]"

definition igraph_adjlist_sort :: "nat list list \<Rightarrow> nat list list" where
  "igraph_adjlist_sort al = map sort al"

definition igraph_adjlist_get :: "nat list list \<Rightarrow> nat \<Rightarrow> nat list" where
  "igraph_adjlist_get al v = al ! v"

text \<open>
  Modelled from the spec: \<open>igraph_vector_int_intersect_sorted\<close> is not among the sources.
  The spec: the standard intersection of two sorted lists by a merge.
\<close>

fun igraph_vector_int_intersect_sorted :: "nat list \<Rightarrow> nat list \<Rightarrow> nat list" where
  "igraph_vector_int_intersect_sorted [] ys = []"
| "igraph_vector_int_intersect_sorted (x # xs) [] = []"
| "igraph_vector_int_intersect_sorted (x # xs) (y # ys) =
     (if x < y then igraph_vector_int_intersect_sorted xs (y # ys)
      else if y < x then igraph_vector_int_intersect_sorted (x # xs) ys
      else x # igraph_vector_int_intersect_sorted xs ys)"

text \<open>
  Modelled from the spec: \<open>igraph_vector_int_max\<close> is not among the sources. The spec:
  \<open>max_support = max(support)\<close>, the largest entry; the comment at line 167 says that it
  cannot be computed for an empty vector.
\<close>

fun igraph_vector_int_max :: "nat list \<Rightarrow> nat option" where
  "igraph_vector_int_max [] = None"
| "igraph_vector_int_max (x # xs) = Some (fold max xs x)"

text \<open>
  Modelled from the spec: \<open>igraph_vector_int_resize\<close> is not among the sources. The spec
  asks for a result with one entry for every edge and says nothing of the entries before
  they are assigned: the first \<open>n\<close> entries of the vector stay, and a grown vector has
  whatever the memory held in its new entries, here \<open>junk i\<close> at index \<open>i\<close>.
\<close>

definition igraph_vector_int_resize :: "nat list \<Rightarrow> nat \<Rightarrow> (nat \<Rightarrow> nat) \<Rightarrow> nat list" where
  "igraph_vector_int_resize v n junk = take n v @ map junk [length v..<n]"

section \<open>The support builder\<close>

text \<open>
  \<open>igraph_truss_i_unpack\<close>: the triangles \<open>[a, b, c, ...]\<close> become the vertex pairs
  \<open>[a, b, a, c, b, c, ...]\<close>. On a vector whose length is not a multiple of 3 the loop
  reads past its end; the model fails there.
\<close>

fun igraph_truss_i_unpack :: "nat list \<Rightarrow> nat list option" where
  "igraph_truss_i_unpack [] = Some []"
| "igraph_truss_i_unpack (a # b # c # tri) =
     map_option (\<lambda>u. a # b # a # c # b # c # u) (igraph_truss_i_unpack tri)"
| "igraph_truss_i_unpack tri = None"

text \<open>\<open>igraph_truss_i_compute_support\<close>: one more for an edge each time its id is listed.\<close>

definition igraph_truss_i_compute_support :: "nat list \<Rightarrow> nat list \<Rightarrow> nat list" where
  "igraph_truss_i_compute_support eid support0 =
     foldl (\<lambda>support e. support[e := support ! e + 1]) support0 eid"

text \<open>
  The first half of \<open>igraph_trussness\<close>: from the vector of triangles that
  \<open>igraph_list_triangles\<close> returned to the support of every edge.
\<close>

definition truss_support :: "igraph \<Rightarrow> nat list \<Rightarrow> nat list option" where
  "truss_support g triangles =
     (case igraph_truss_i_unpack triangles of
        None \<Rightarrow> None
      | Some unpacked_triangles \<Rightarrow>
          (case igraph_get_eids g unpacked_triangles of
             None \<Rightarrow> None
           | Some eid \<Rightarrow>
               Some (igraph_truss_i_compute_support eid (replicate (igraph_ecount g) 0))))"

section \<open>The truss peeler\<close>

text \<open>
  The variables of \<open>igraph_i_trussness\<close> that the loops change. \<open>vec\<close> is the vector of
  levels, each an unordered set of edge ids. \<open>writes\<close> is not a variable of the program:
  it lists the assignments to \<open>trussness\<close> in the order they happen, each as the level
  being processed, the edge and the value written.
\<close>

record peel_state =
  support :: "nat list"
  completed :: "bool list"
  vec :: "nat set list"
  trussness :: "nat list"
  writes :: "(nat \<times> nat \<times> nat) list"

text \<open>
  \<open>*vec[level].begin()\<close>: which element an unordered set gives first is not specified.
  The choice is a parameter of the model; it may depend on everything that happened so far.
  All that is known of it is that it gives a member of a set that is finite and not empty.
\<close>

type_synonym tie_break = "peel_state \<Rightarrow> nat \<Rightarrow> nat"

definition valid_tie_break :: "tie_break \<Rightarrow> bool" where
  "valid_tie_break first =
     (\<forall>s level. finite (vec s ! level) \<and> vec s ! level \<noteq> {} \<longrightarrow> first s level \<in> vec s ! level)"

text \<open>Lines 239 to 244 (and 246 to 251): demote an edge that is above the current level.\<close>

definition demote :: "nat \<Rightarrow> nat \<Rightarrow> peel_state \<Rightarrow> peel_state" where
  "demote level e s =
     (if level < support s ! e then
        (let newLevel = support s ! e - 1;
             vec1 = (vec s)[newLevel := insert e (vec s ! newLevel)];
             vec2 = vec1[newLevel + 1 := vec1 ! (newLevel + 1) - {e}]
         in s\<lparr>support := (support s)[e := newLevel], vec := vec2\<rparr>)
      else s)"

text \<open>Lines 234 to 252: what is done for one triangle, once its edges are known.\<close>

definition demote_pair :: "nat \<Rightarrow> nat \<Rightarrow> nat \<Rightarrow> peel_state \<Rightarrow> peel_state" where
  "demote_pair level e1 e2 s =
     (if \<not> completed s ! e1 \<and> \<not> completed s ! e2
      then demote level e2 (demote level e1 s)
      else s)"

text \<open>
  Lines 229 to 253: the loop over the common neighbours. A neighbour without an edge to
  one of the two vertices makes \<open>igraph_get_eid\<close> fail; the run stops there.
\<close>

fun check_neighbors ::
  "igraph \<Rightarrow> nat \<Rightarrow> nat \<Rightarrow> nat \<Rightarrow> nat list \<Rightarrow> peel_state \<Rightarrow> peel_state option" where
  "check_neighbors g fromVertex toVertex level [] s = Some s"
| "check_neighbors g fromVertex toVertex level (n # ns) s =
     (case igraph_get_eid g fromVertex n of
        None \<Rightarrow> None
      | Some e1 \<Rightarrow>
          (case igraph_get_eid g toVertex n of
             None \<Rightarrow> None
           | Some e2 \<Rightarrow>
               check_neighbors g fromVertex toVertex level ns (demote_pair level e1 e2 s)))"

text \<open>Lines 208 to 225: the common neighbours of the two ends of an edge.\<close>

definition common_neighbors :: "nat list list \<Rightarrow> nat \<Rightarrow> nat \<Rightarrow> nat list" where
  "common_neighbors adjlist fromVertex toVertex =
     (let fromNeighbors = igraph_adjlist_get adjlist fromVertex;
          toNeighbors = igraph_adjlist_get adjlist toVertex
      in if length fromNeighbors > length toNeighbors
         then igraph_vector_int_intersect_sorted toNeighbors fromNeighbors
         else igraph_vector_int_intersect_sorted fromNeighbors toNeighbors)"

text \<open>Lines 255 and 256: record the trussness of the seed and mark it complete.\<close>

definition record_seed :: "nat \<Rightarrow> nat \<Rightarrow> peel_state \<Rightarrow> peel_state" where
  "record_seed level seed s =
     s\<lparr>trussness := (trussness s)[seed := level + 2],
       completed := (completed s)[seed := True],
       writes := writes s @ [(level, seed, level + 2)]\<rparr>"

text \<open>Lines 204 to 257: one turn of the while loop, for the edge \<open>seed\<close>.\<close>

definition process_seed ::
  "igraph \<Rightarrow> nat list list \<Rightarrow> nat \<Rightarrow> nat \<Rightarrow> peel_state \<Rightarrow> peel_state option" where
  "process_seed g adjlist level seed s =
     (let s1 = s\<lparr>vec := (vec s)[level := vec s ! level - {seed}]\<rparr>
      in case igraph_edge g seed of
           None \<Rightarrow> None
         | Some (fromVertex, toVertex) \<Rightarrow>
             map_option (record_seed level seed)
               (check_neighbors g fromVertex toVertex level
                  (common_neighbors adjlist fromVertex toVertex) s1))"

text \<open>
  Lines 203 to 258: the while loop of one level. It need not end on every state, so it is
  a partial function: no result is \<open>None\<close>, as is a failed lookup.
\<close>

partial_function (option) peel_level ::
  "tie_break \<Rightarrow> igraph \<Rightarrow> nat list list \<Rightarrow> nat \<Rightarrow> peel_state \<Rightarrow> peel_state option" where
  "peel_level first g adjlist level s =
     (if vec s ! level = {} then Some s
      else Option.bind (process_seed g adjlist level (first s level) s)
             (peel_level first g adjlist level))"

declare peel_level.simps [code]

text \<open>Lines 200 to 259: the for loop, over the levels listed.\<close>

fun peel_levels ::
  "tie_break \<Rightarrow> igraph \<Rightarrow> nat list list \<Rightarrow> nat list \<Rightarrow> peel_state \<Rightarrow> peel_state option" where
  "peel_levels first g adjlist [] s = Some s"
| "peel_levels first g adjlist (level # levels) s =
     Option.bind (peel_level first g adjlist level s) (peel_levels first g adjlist levels)"

text \<open>Lines 178 to 180: every edge goes into the set of its support.\<close>

definition fill_levels :: "nat list \<Rightarrow> nat set list \<Rightarrow> nat set list" where
  "fill_levels sup0 vec0 =
     foldl (\<lambda>v i. v[sup0 ! i := insert i (v ! (sup0 ! i))]) vec0 [0..<length sup0]"

text \<open>
  Lines 185 to 188: the edges of level 0 get trussness 2 and are complete. The body touches
  the entries of the visited edge only, so the order of the visit is of no consequence; the
  model visits the members of \<open>vec[0]\<close> by increasing id.
\<close>

definition record_level0 :: "peel_state \<Rightarrow> nat \<Rightarrow> peel_state" where
  "record_level0 s i =
     (if i \<in> vec s ! 0
      then s\<lparr>trussness := (trussness s)[i := 2],
             completed := (completed s)[i := True],
             writes := writes s @ [(0, i, 2)]\<rparr>
      else s)"

definition complete_level0 :: "nat \<Rightarrow> peel_state \<Rightarrow> peel_state" where
  "complete_level0 nedges s = foldl record_level0 s [0..<nedges]"

text \<open>Lines 168 to 188: the state on entry to the loop over the levels.\<close>

definition peel_init :: "nat list \<Rightarrow> nat list \<Rightarrow> nat \<Rightarrow> peel_state" where
  "peel_init sup0 tr mx =
     complete_level0 (length sup0)
       \<lparr>support = sup0,
        completed = replicate (length sup0) False,
        vec = fill_levels sup0 (replicate (mx + 1) {}),
        trussness = tr,
        writes = []\<rparr>"

definition truss_adjlist :: "igraph \<Rightarrow> nat list list" where
  "truss_adjlist g =
     igraph_adjlist_sort (igraph_adjlist_init g IGRAPH_ALL IGRAPH_NO_LOOPS IGRAPH_MULTIPLE)"

text \<open>Lines 166 to 259, for a support vector that is not empty: the final state.\<close>

definition peel_run :: "tie_break \<Rightarrow> igraph \<Rightarrow> nat list \<Rightarrow> nat list \<Rightarrow> peel_state option" where
  "peel_run first g sup0 tr =
     (case igraph_vector_int_max sup0 of
        None \<Rightarrow> None
      | Some mx \<Rightarrow> peel_levels first g (truss_adjlist g) [1..<mx + 1] (peel_init sup0 tr mx))"

text \<open>
  \<open>igraph_i_trussness\<close>: \<open>trussness0\<close> is the caller's vector as it comes in, the result
  is the vector as it goes out.
\<close>

definition igraph_i_trussness ::
  "tie_break \<Rightarrow> igraph \<Rightarrow> nat list \<Rightarrow> nat list \<Rightarrow> (nat \<Rightarrow> nat) \<Rightarrow> nat list option" where
  "igraph_i_trussness first g sup0 trussness0 junk =
     (let nedges = length sup0;
          tr = igraph_vector_int_resize trussness0 nedges junk
      in if nedges = 0 then Some tr
         else map_option trussness (peel_run first g sup0 tr))"

text \<open>
  \<open>igraph_trussness\<close>, with the vector that \<open>igraph_list_triangles\<close> returned as an
  argument.
\<close>

definition igraph_trussness ::
  "tie_break \<Rightarrow> igraph \<Rightarrow> nat list \<Rightarrow> nat list \<Rightarrow> (nat \<Rightarrow> nat) \<Rightarrow> nat list option" where
  "igraph_trussness first g triangles trussness0 junk =
     (case truss_support g triangles of
        None \<Rightarrow> None
      | Some sup0 \<Rightarrow> igraph_i_trussness first g sup0 trussness0 junk)"

section \<open>Invariants of the peeling loops\<close>

text \<open>
  What holds of the state at every test of the while loop, for \<open>n\<close> edges, the largest
  initial support \<open>mx\<close>, the initial supports \<open>sup0\<close> and the current level. Inside a
  turn of the loop the same holds but for the seed, which has been taken from its set and
  is not yet completed: it is the argument \<open>popped\<close>.
  \<^item> \<open>sizes_ok\<close>: the vectors have their sizes and no support is above \<open>mx\<close>;
  \<^item> \<open>buckets_ok\<close>: which edges the sets of \<open>vec\<close> hold;
  \<^item> \<open>levels_ok\<close>: the supports of pending edges are at or above the level, those of
    completed edges at or below;
  \<^item> \<open>results_ok\<close>: a completed edge has trussness support + 2, supports only go down,
    and the edges of support 0 are those of initial support 0, all completed;
  \<^item> \<open>writes_ok\<close>: the assignments to \<open>trussness\<close> so far are one for each completed
    edge, of the support of the edge plus 2.
\<close>

definition sizes_ok :: "nat \<Rightarrow> nat \<Rightarrow> peel_state \<Rightarrow> bool" where
  "sizes_ok n mx s =
     (length (support s) = n \<and> length (completed s) = n \<and> length (trussness s) = n \<and>
      length (vec s) = mx + 1 \<and> (\<forall>e<n. support s ! e \<le> mx))"

definition buckets_ok :: "nat \<Rightarrow> nat option \<Rightarrow> peel_state \<Rightarrow> bool" where
  "buckets_ok n popped s =
     (\<forall>k<length (vec s). \<forall>e. e \<in> vec s ! k \<longleftrightarrow>
        e < n \<and> (if completed s ! e then k = 0 \<and> support s ! e = 0
                 else popped \<noteq> Some e \<and> k = support s ! e))"

definition levels_ok :: "nat \<Rightarrow> nat \<Rightarrow> peel_state \<Rightarrow> bool" where
  "levels_ok n level s =
     (1 \<le> level \<and>
      (\<forall>e<n. if completed s ! e then support s ! e \<le> level else level \<le> support s ! e))"

definition results_ok :: "nat list \<Rightarrow> peel_state \<Rightarrow> bool" where
  "results_ok sup0 s =
     (\<forall>e<length sup0.
        (completed s ! e \<longrightarrow> trussness s ! e = support s ! e + 2) \<and>
        support s ! e \<le> sup0 ! e \<and>
        (support s ! e = 0 \<longrightarrow> sup0 ! e = 0 \<and> completed s ! e))"

definition writes_ok :: "nat \<Rightarrow> peel_state \<Rightarrow> bool" where
  "writes_ok n s =
     (distinct (map (fst \<circ> snd) (writes s)) \<and>
      (\<forall>e. e \<in> (fst \<circ> snd) ` set (writes s) \<longleftrightarrow> e < n \<and> completed s ! e) \<and>
      (\<forall>w\<in>set (writes s). fst w = support s ! fst (snd w) \<and> snd (snd w) = fst w + 2))"

definition peel_inv :: "nat list \<Rightarrow> nat \<Rightarrow> nat \<Rightarrow> nat option \<Rightarrow> peel_state \<Rightarrow> bool" where
  "peel_inv sup0 mx level popped s =
     (sizes_ok (length sup0) mx s \<and> buckets_ok (length sup0) popped s \<and>
      levels_ok (length sup0) level s \<and> results_ok sup0 s \<and> writes_ok (length sup0) s \<and>
      (\<forall>e. popped = Some e \<longrightarrow> e < length sup0 \<and> \<not> completed s ! e \<and> support s ! e = level))"

text \<open>The state after the pass over level 0 has visited the edges below \<open>m\<close>.\<close>

definition level0_done :: "nat list \<Rightarrow> nat \<Rightarrow> peel_state \<Rightarrow> peel_state \<Rightarrow> bool" where
  "level0_done sup0 m s0 s =
     (support s = support s0 \<and> vec s = vec s0 \<and>
      length (completed s) = length sup0 \<and> length (trussness s) = length sup0 \<and>
      (\<forall>i<length sup0. completed s ! i \<longleftrightarrow> i < m \<and> sup0 ! i = 0) \<and>
      (\<forall>i<length sup0. completed s ! i \<longrightarrow> trussness s ! i = 2) \<and>
      distinct (map (fst \<circ> snd) (writes s)) \<and>
      (fst \<circ> snd) ` set (writes s) = {i. i < m \<and> sup0 ! i = 0} \<and>
      (\<forall>w\<in>set (writes s). fst w = 0 \<and> snd (snd w) = 2))"

text \<open>
  The states of a run at the test of the while loop (line 203), each with the level of the
  for loop; after the last level, the state in which the for loop is left.
\<close>

inductive peel_reach ::
  "tie_break \<Rightarrow> igraph \<Rightarrow> nat list \<Rightarrow> nat list \<Rightarrow> nat \<Rightarrow> peel_state \<Rightarrow> bool"
  for first g sup0 tr where
  enter: "igraph_vector_int_max sup0 = Some mx \<Longrightarrow>
      peel_reach first g sup0 tr 1 (peel_init sup0 tr mx)"
| seed: "peel_reach first g sup0 tr level s \<Longrightarrow> igraph_vector_int_max sup0 = Some mx \<Longrightarrow>
      level \<le> mx \<Longrightarrow> vec s ! level \<noteq> {} \<Longrightarrow>
      process_seed g (truss_adjlist g) level (first s level) s = Some s' \<Longrightarrow>
      peel_reach first g sup0 tr level s'"
| next_level: "peel_reach first g sup0 tr level s \<Longrightarrow> igraph_vector_int_max sup0 = Some mx \<Longrightarrow>
      level \<le> mx \<Longrightarrow> vec s ! level = {} \<Longrightarrow>
      peel_reach first g sup0 tr (Suc level) s"

text \<open>The number of edges that are not completed: it goes down in every turn.\<close>

definition pending :: "peel_state \<Rightarrow> nat" where
  "pending s = length (filter Not (completed s))"

section \<open>Tie-breaks and inputs for the examples\<close>

text \<open>
  Two tie-breaks, the smallest and the largest edge id of the set, and the graph of the
  end-to-end scenario of the spec: the complete graph on four vertices and one more edge
  \<open>(4, 5)\<close> in no triangle.
\<close>

definition first_min :: tie_break where
  "first_min s level = Min (vec s ! level)"

definition first_max :: tie_break where
  "first_max s level = Max (vec s ! level)"

definition k4_pendant :: igraph where
  "k4_pendant = \<lparr>vcount = 6, edges = [(0, 1), (0, 2), (0, 3), (1, 2), (1, 3), (2, 3), (4, 5)]\<rparr>"

definition k4_triangles :: "nat list" where
  "k4_triangles = [0, 1, 2, 0, 1, 3, 0, 2, 3, 1, 2, 3]"

definition k4_support :: "nat list" where
  "k4_support = [2, 2, 2, 2, 2, 2, 0]"

section \<open>Triangles, supports and trusses\<close>

text \<open>
  The vector of \<open>igraph_list_triangles\<close> holds three vertices for every triangle.
  \<open>is_triangle\<close>: three different vertices with an edge between each two.
  \<open>triangle_has_eid\<close>: the edge is the one that the lookup returns for one of the three
  vertex pairs. \<open>edge_in_triangle\<close>: both ends of the edge are vertices of the triangle.
\<close>

fun flatten_triangles :: "(nat \<times> nat \<times> nat) list \<Rightarrow> nat list" where
  "flatten_triangles [] = []"
| "flatten_triangles ((a, b, c) # ts) = a # b # c # flatten_triangles ts"

fun triangle_eids :: "igraph \<Rightarrow> nat \<times> nat \<times> nat \<Rightarrow> nat option list" where
  "triangle_eids g (a, b, c) = [igraph_get_eid g a b, igraph_get_eid g a c, igraph_get_eid g b c]"

fun is_triangle :: "igraph \<Rightarrow> nat \<times> nat \<times> nat \<Rightarrow> bool" where
  "is_triangle g (a, b, c) =
     (a \<noteq> b \<and> a \<noteq> c \<and> b \<noteq> c \<and>
      igraph_get_eid g a b \<noteq> None \<and> igraph_get_eid g a c \<noteq> None \<and>
      igraph_get_eid g b c \<noteq> None)"

definition triangle_has_eid :: "igraph \<Rightarrow> nat \<Rightarrow> nat \<times> nat \<times> nat \<Rightarrow> bool" where
  "triangle_has_eid g e t = (Some e \<in> set (triangle_eids g t))"

fun edge_in_triangle :: "igraph \<Rightarrow> nat \<Rightarrow> nat \<times> nat \<times> nat \<Rightarrow> bool" where
  "edge_in_triangle g e (a, b, c) =
     (case igraph_edge g e of
        None \<Rightarrow> False
      | Some (x, y) \<Rightarrow> x \<noteq> y \<and> x \<in> {a, b, c} \<and> y \<in> {a, b, c})"

definition k4_triples :: "(nat \<times> nat \<times> nat) list" where
  "k4_triples = [(0, 1, 2), (0, 1, 3), (0, 2, 3), (1, 2, 3)]"

text \<open>
  Two more graphs. \<open>k4_ear\<close>: the complete graph on the vertices 0 to 3, a vertex 4
  joined to 0 and 1, and a self-loop at 4; its five triangles, the supports they give, and
  the state of its run in the first turn of the while loop, after edge 6 has been taken
  from the set of level 1. \<open>doubled_edges\<close>: a graph on 5 vertices in which the pairs
  \<open>{1, 4}\<close> and \<open>{2, 4}\<close> both have two edges, with its five triangles.
\<close>

definition k4_ear :: igraph where
  "k4_ear = \<lparr>vcount = 5, edges = [(0, 1), (0, 2), (0, 3), (1, 2), (1, 3), (2, 3),
     (0, 4), (1, 4), (4, 4)]\<rparr>"


definition k4_ear_support :: "nat list" where
  "k4_ear_support = [3, 2, 2, 2, 2, 2, 1, 1, 0]"

definition ear_popped :: peel_state where
  "ear_popped =
     (peel_init k4_ear_support (replicate 9 0) 3)
       \<lparr>vec := (vec (peel_init k4_ear_support (replicate 9 0) 3))
                 [1 := vec (peel_init k4_ear_support (replicate 9 0) 3) ! 1 - {6}]\<rparr>"



definition parallel_pair :: igraph where
  "parallel_pair = \<lparr>vcount = 2, edges = [(0, 1), (0, 1)]\<rparr>"

text \<open>
  For a graph without parallel edges (\<open>no_parallel_edges\<close>; self-loops are allowed):
  \<open>thirds g S e\<close> are the third vertices of the triangles on the edge \<open>e\<close> whose two
  other edges are in the set \<open>S\<close> (none, if \<open>e\<close> is a self-loop), \<open>alive g S e\<close>
  their number, and \<open>triangle_support g\<close> the number of triangles on every edge, counted
  as the peeler finds them (0 for a self-loop). \<open>seed_sides g S seed\<close> are the other edges of the triangles on \<open>seed\<close> that have
  both of them in \<open>S\<close>. A set of edges is a truss for \<open>k\<close> when each of its edges is in
  \<open>k\<close> triangles of edges of the set; \<open>max_truss g k\<close> is the largest one.
  \<open>truss_inv\<close> is what the peeler keeps of this at every test of the while loop.
\<close>

definition no_parallel_edges :: "igraph \<Rightarrow> bool" where
  "no_parallel_edges g = distinct (map (\<lambda>(a, b). (min a b, max a b)) (edges g))"

definition adjacent :: "igraph \<Rightarrow> nat \<Rightarrow> nat \<Rightarrow> bool" where
  "adjacent g u v = (u \<noteq> v \<and> ((u, v) \<in> set (edges g) \<or> (v, u) \<in> set (edges g)))"

definition eid_of :: "igraph \<Rightarrow> nat \<Rightarrow> nat \<Rightarrow> nat" where
  "eid_of g u v = the (igraph_get_eid g u v)"












section \<open>The invariants hold in every run\<close>

lemma first_eid_Some:
  "first_eid es a b = Some i \<Longrightarrow> i < length es \<and> (es ! i = (a, b) \<or> es ! i = (b, a))"
proof (induction es arbitrary: i)
  case Nil
  then show ?case by simp
next
  case (Cons e es)
  show ?case
  proof (cases "e = (a, b) \<or> e = (b, a)")
    case True
    with Cons.prems show ?thesis by auto
  next
    case False
    with Cons.prems obtain j where j: "first_eid es a b = Some j" "i = Suc j"
      by auto
    from Cons.IH [OF j(1)] j(2) show ?thesis by simp
  qed
qed

lemma first_eid_found:
  "(a, b) \<in> set es \<or> (b, a) \<in> set es \<Longrightarrow> \<exists>i. first_eid es a b = Some i"
  by (induction es) auto

lemma intersect_sorted_subset:
  "set (igraph_vector_int_intersect_sorted xs ys) \<subseteq> set xs \<inter> set ys"
  by (induction xs ys rule: igraph_vector_int_intersect_sorted.induct) auto

lemma other_ends_edge:
  "n \<in> set (other_ends loops v e) \<Longrightarrow> e = (v, n) \<or> e = (n, v)"
  by (cases e) (auto simp: other_ends_def split: if_splits igraph_loops_t.splits)

lemma truss_adjlist_edge:
  assumes "v < vcount g" and "n \<in> set (igraph_adjlist_get (truss_adjlist g) v)"
  shows "(v, n) \<in> set (edges g) \<or> (n, v) \<in> set (edges g)"
  using assms
  by (auto simp: truss_adjlist_def igraph_adjlist_sort_def igraph_adjlist_init_def
      igraph_adjlist_get_def dest: other_ends_edge)

lemma common_neighbors_subset:
  "set (common_neighbors al a b) \<subseteq> set (igraph_adjlist_get al a) \<inter> set (igraph_adjlist_get al b)"
  using intersect_sorted_subset [of "igraph_adjlist_get al a" "igraph_adjlist_get al b"]
    intersect_sorted_subset [of "igraph_adjlist_get al b" "igraph_adjlist_get al a"]
  by (auto simp: common_neighbors_def Let_def)

lemma common_neighbors_eid:
  assumes "a < vcount g" and "b < vcount g"
    and "n \<in> set (common_neighbors (truss_adjlist g) a b)"
  shows "\<exists>e1 e2. igraph_get_eid g a n = Some e1 \<and> igraph_get_eid g b n = Some e2"
proof -
  from assms(3) common_neighbors_subset [of "truss_adjlist g" a b]
  have "n \<in> set (igraph_adjlist_get (truss_adjlist g) a)"
    and "n \<in> set (igraph_adjlist_get (truss_adjlist g) b)" by auto
  with assms(1,2) truss_adjlist_edge [of a g n] truss_adjlist_edge [of b g n]
  show ?thesis
    unfolding igraph_get_eid_def using first_eid_found by meson
qed

lemma igraph_get_eid_less:
  "igraph_get_eid g a b = Some e \<Longrightarrow> e < igraph_ecount g"
  by (auto simp: igraph_get_eid_def igraph_ecount_def dest: first_eid_Some)

lemma demote_unchanged [simp]:
  "completed (demote level e s) = completed s"
  "trussness (demote level e s) = trussness s"
  "writes (demote level e s) = writes s"
  "length (support (demote level e s)) = length (support s)"
  "length (vec (demote level e s)) = length (vec s)"
  by (simp_all add: demote_def Let_def)

lemma demote_support:
  "e < length (support s) \<Longrightarrow>
   support (demote level e s) ! x =
     (if x = e \<and> level < support s ! e then support s ! e - 1 else support s ! x)"
  by (simp add: demote_def Let_def nth_list_update)

lemma demote_vec:
  assumes "support s ! e < length (vec s)" and "k < length (vec s)"
  shows "x \<in> vec (demote level e s) ! k \<longleftrightarrow>
     (if x = e \<and> level < support s ! e
      then k = support s ! e - 1 \<or> (k \<noteq> support s ! e \<and> x \<in> vec s ! k)
      else x \<in> vec s ! k)"
  using assms by (auto simp: demote_def Let_def nth_list_update)

lemma demote_inv:
  assumes inv: "peel_inv sup0 mx level popped s"
    and e: "e < length sup0" and nc: "\<not> completed s ! e"
  shows "peel_inv sup0 mx level popped (demote level e s)"
proof -
  let ?n = "length sup0" and ?s = "demote level e s"
  from inv have sz: "sizes_ok ?n mx s" and bk: "buckets_ok ?n popped s"
    and lv: "levels_ok ?n level s" and rs: "results_ok sup0 s" and wr: "writes_ok ?n s"
    and pp: "\<forall>e. popped = Some e \<longrightarrow> e < ?n \<and> \<not> completed s ! e \<and> support s ! e = level"
    by (simp_all add: peel_inv_def)
  from sz e have len: "e < length (support s)" and bound: "support s ! e < length (vec s)"
    by (auto simp: sizes_ok_def)
  have sup: "\<And>x. support ?s ! x =
      (if x = e \<and> level < support s ! e then support s ! e - 1 else support s ! x)"
    using demote_support [OF len] .
  from lv e nc have ge: "level \<le> support s ! e" and l1: "1 \<le> level"
    by (auto simp: levels_ok_def)
  have "sizes_ok ?n mx ?s"
    using sz by (auto simp: sizes_ok_def sup)
  moreover have "buckets_ok ?n popped ?s"
    unfolding buckets_ok_def
  proof (intro allI impI)
    fix k x assume k: "k < length (vec ?s)"
    then have k': "k < length (vec s)" by simp
    from bk k' have old: "\<And>y. y \<in> vec s ! k \<longleftrightarrow>
        y < ?n \<and> (if completed s ! y then k = 0 \<and> support s ! y = 0
                 else popped \<noteq> Some y \<and> k = support s ! y)"
      by (simp add: buckets_ok_def)
    show "x \<in> vec ?s ! k \<longleftrightarrow>
        x < ?n \<and> (if completed ?s ! x then k = 0 \<and> support ?s ! x = 0
                 else popped \<noteq> Some x \<and> k = support ?s ! x)"
      unfolding demote_vec [OF bound k'] sup old
      using e nc pp ge l1 by auto
  qed
  moreover have "levels_ok ?n level ?s"
    using lv e nc unfolding levels_ok_def sup by auto
  moreover have "results_ok sup0 ?s"
    using rs e nc ge l1 unfolding results_ok_def sup by (auto; fastforce)
  moreover have "writes_ok ?n ?s"
    using wr e nc unfolding writes_ok_def sup by auto
  moreover have "\<forall>x. popped = Some x \<longrightarrow> x < ?n \<and> \<not> completed ?s ! x \<and> support ?s ! x = level"
    using pp unfolding sup by auto
  ultimately show ?thesis by (simp add: peel_inv_def)
qed

lemma demote_pair_inv:
  assumes "peel_inv sup0 mx level popped s" and "e1 < length sup0" and "e2 < length sup0"
  shows "peel_inv sup0 mx level popped (demote_pair level e1 e2 s)"
  using assms by (simp add: demote_pair_def demote_inv)

lemma check_neighbors_inv:
  assumes "length sup0 = igraph_ecount g"
  shows "peel_inv sup0 mx level popped s \<Longrightarrow> check_neighbors g a b level ns s = Some s' \<Longrightarrow>
    peel_inv sup0 mx level popped s'"
proof (induction ns arbitrary: s)
  case Nil
  then show ?case by simp
next
  case (Cons n ns)
  from Cons.prems(2) obtain e1 e2 where e: "igraph_get_eid g a n = Some e1"
    "igraph_get_eid g b n = Some e2"
    and rest: "check_neighbors g a b level ns (demote_pair level e1 e2 s) = Some s'"
    by (auto split: option.splits)
  from e assms have "e1 < length sup0" "e2 < length sup0"
    by (auto dest: igraph_get_eid_less)
  with Cons.prems(1) have "peel_inv sup0 mx level popped (demote_pair level e1 e2 s)"
    by (rule demote_pair_inv)
  from Cons.IH [OF this rest] show ?case .
qed

lemma check_neighbors_Some:
  "(\<forall>n\<in>set ns. \<exists>e1 e2. igraph_get_eid g a n = Some e1 \<and> igraph_get_eid g b n = Some e2) \<Longrightarrow>
    \<exists>s'. check_neighbors g a b level ns s = Some s'"
  by (induction ns arbitrary: s) auto

lemma seed_in_bucket:
  assumes "peel_inv sup0 mx level None s" and "level \<le> mx" and "seed \<in> vec s ! level"
  shows "seed < length sup0 \<and> \<not> completed s ! seed \<and> support s ! seed = level"
proof -
  from assms(1) have "sizes_ok (length sup0) mx s" "buckets_ok (length sup0) None s"
    "levels_ok (length sup0) level s" by (simp_all add: peel_inv_def)
  with assms(2,3) show ?thesis
    by (auto simp: sizes_ok_def buckets_ok_def levels_ok_def split: if_splits)
qed

lemma erase_seed_inv:
  assumes inv: "peel_inv sup0 mx level None s" and "level \<le> mx" and "seed \<in> vec s ! level"
  shows "peel_inv sup0 mx level (Some seed) (s\<lparr>vec := (vec s)[level := vec s ! level - {seed}]\<rparr>)"
proof -
  note sd = seed_in_bucket [OF assms]
  from inv have sz: "sizes_ok (length sup0) mx s" and bk: "buckets_ok (length sup0) None s"
    and lv: "levels_ok (length sup0) level s" and rs: "results_ok sup0 s"
    and wr: "writes_ok (length sup0) s"
    by (simp_all add: peel_inv_def)
  from sz assms(2) have ll: "level < length (vec s)" by (simp add: sizes_ok_def)
  have "buckets_ok (length sup0) (Some seed)
      (s\<lparr>vec := (vec s)[level := vec s ! level - {seed}]\<rparr>)"
    unfolding buckets_ok_def
  proof (intro allI impI)
    fix k x
    assume "k < length (vec (s\<lparr>vec := (vec s)[level := vec s ! level - {seed}]\<rparr>))"
    then have k: "k < length (vec s)" by simp
    from bk k have old: "\<And>y. y \<in> vec s ! k \<longleftrightarrow>
        y < length sup0 \<and> (if completed s ! y then k = 0 \<and> support s ! y = 0
                 else k = support s ! y)"
      by (simp add: buckets_ok_def)
    show "x \<in> vec (s\<lparr>vec := (vec s)[level := vec s ! level - {seed}]\<rparr>) ! k \<longleftrightarrow>
        x < length sup0 \<and>
        (if completed (s\<lparr>vec := (vec s)[level := vec s ! level - {seed}]\<rparr>) ! x
         then k = 0 \<and> support (s\<lparr>vec := (vec s)[level := vec s ! level - {seed}]\<rparr>) ! x = 0
         else Some seed \<noteq> Some x \<and>
              k = support (s\<lparr>vec := (vec s)[level := vec s ! level - {seed}]\<rparr>) ! x)"
      using sd ll k by (auto simp: nth_list_update old)
  qed
  with sz lv rs wr sd show ?thesis
    by (simp add: peel_inv_def sizes_ok_def levels_ok_def results_ok_def writes_ok_def)
qed

lemma record_seed_inv:
  assumes inv: "peel_inv sup0 mx level (Some seed) s"
  shows "peel_inv sup0 mx level None (record_seed level seed s)"
proof -
  let ?n = "length sup0"
  from inv have sz: "sizes_ok ?n mx s" and bk: "buckets_ok ?n (Some seed) s"
    and lv: "levels_ok ?n level s" and rs: "results_ok sup0 s" and wr: "writes_ok ?n s"
    and sd: "seed < ?n" "\<not> completed s ! seed" "support s ! seed = level"
    by (simp_all add: peel_inv_def)
  from sz have len: "length (completed s) = ?n" "length (trussness s) = ?n"
    by (simp_all add: sizes_ok_def)
  from lv have l1: "1 \<le> level" by (simp add: levels_ok_def)
  have "sizes_ok ?n mx (record_seed level seed s)"
    using sz by (simp add: sizes_ok_def record_seed_def)
  moreover have "buckets_ok ?n None (record_seed level seed s)"
    using bk sd l1 len unfolding buckets_ok_def record_seed_def
    by (auto simp: nth_list_update)
  moreover have "levels_ok ?n level (record_seed level seed s)"
    using lv sd len unfolding levels_ok_def record_seed_def
    by (auto simp: nth_list_update)
  moreover have "results_ok sup0 (record_seed level seed s)"
    using rs sd len l1 unfolding results_ok_def record_seed_def
    by (auto simp: nth_list_update)
  moreover have "writes_ok ?n (record_seed level seed s)"
    using wr sd len unfolding writes_ok_def record_seed_def
    by (auto simp: nth_list_update image_iff)
  ultimately show ?thesis by (simp add: peel_inv_def)
qed

lemma process_seed_inv:
  assumes inv: "peel_inv sup0 mx level None s" and lv: "level \<le> mx"
    and seed: "seed \<in> vec s ! level" and n: "length sup0 = igraph_ecount g"
    and run: "process_seed g al level seed s = Some s'"
  shows "peel_inv sup0 mx level None s'"
proof -
  let ?s1 = "s\<lparr>vec := (vec s)[level := vec s ! level - {seed}]\<rparr>"
  from run obtain a b s2 where ab: "igraph_edge g seed = Some (a, b)"
    and s2: "check_neighbors g a b level (common_neighbors al a b) ?s1 = Some s2"
    and s': "s' = record_seed level seed s2"
    by (auto simp: process_seed_def Let_def split: option.splits prod.splits)
  from erase_seed_inv [OF inv lv seed] have "peel_inv sup0 mx level (Some seed) ?s1" .
  from check_neighbors_inv [OF n this s2] have "peel_inv sup0 mx level (Some seed) s2" .
  then show ?thesis unfolding s' by (rule record_seed_inv)
qed

lemma igraph_edge_valid:
  assumes "valid_graph g" and "igraph_edge g e = Some (a, b)"
  shows "a < vcount g \<and> b < vcount g"
proof -
  from assms(2) have "e < length (edges g)" "edges g ! e = (a, b)"
    by (auto simp: igraph_edge_def igraph_ecount_def split: if_splits)
  then have "(a, b) \<in> set (edges g)" by (metis nth_mem)
  with assms(1) show ?thesis by (auto simp: valid_graph_def list_all_iff)
qed

lemma process_seed_Some:
  assumes "valid_graph g" and "seed < igraph_ecount g"
  shows "\<exists>s'. process_seed g (truss_adjlist g) level seed s = Some s'"
proof -
  from assms(2) obtain a b where ab: "igraph_edge g seed = Some (a, b)"
    by (cases "edges g ! seed") (auto simp: igraph_edge_def)
  from igraph_edge_valid [OF assms(1) ab] have v: "a < vcount g" "b < vcount g" by auto
  have "\<forall>n\<in>set (common_neighbors (truss_adjlist g) a b).
      \<exists>e1 e2. igraph_get_eid g a n = Some e1 \<and> igraph_get_eid g b n = Some e2"
    using common_neighbors_eid [OF v] by blast
  from check_neighbors_Some [OF this] ab show ?thesis
    by (fastforce simp: process_seed_def Let_def)
qed

lemma igraph_vector_int_max_Max:
  assumes "igraph_vector_int_max xs = Some mx"
  shows "xs \<noteq> [] \<and> mx = Max (set xs)"
proof (cases xs)
  case Nil
  with assms show ?thesis by simp
next
  case (Cons a list)
  with assms Max.set_eq_fold [of a list] show ?thesis by auto
qed

lemma igraph_vector_int_max_ge:
  "igraph_vector_int_max xs = Some mx \<Longrightarrow> i < length xs \<Longrightarrow> xs ! i \<le> mx"
  by (auto dest!: igraph_vector_int_max_Max)

lemma fill_levels_upto:
  assumes "\<forall>i<length sup0. sup0 ! i < length v0" and "\<forall>k<length v0. v0 ! k = {}"
    and "m \<le> length sup0"
  shows "length (foldl (\<lambda>v i. v[sup0 ! i := insert i (v ! (sup0 ! i))]) v0 [0..<m]) = length v0 \<and>
    (\<forall>k<length v0. foldl (\<lambda>v i. v[sup0 ! i := insert i (v ! (sup0 ! i))]) v0 [0..<m] ! k =
        {i. i < m \<and> sup0 ! i = k})"
  using assms(3)
proof (induction m)
  case 0
  with assms(2) show ?case by simp
next
  case (Suc m)
  let ?v = "foldl (\<lambda>v i. v[sup0 ! i := insert i (v ! (sup0 ! i))]) v0 [0..<m]"
  from Suc have len: "length ?v = length v0"
    and IH: "\<forall>k<length v0. ?v ! k = {i. i < m \<and> sup0 ! i = k}"
    by simp_all
  from Suc.prems assms(1) have b: "sup0 ! m < length v0" by simp
  have step: "foldl (\<lambda>v i. v[sup0 ! i := insert i (v ! (sup0 ! i))]) v0 [0..<Suc m] =
      ?v[sup0 ! m := insert m (?v ! (sup0 ! m))]"
    by simp
  have "?v[sup0 ! m := insert m (?v ! (sup0 ! m))] ! k = {i. i < Suc m \<and> sup0 ! i = k}"
    if "k < length v0" for k
    using that b len IH by (auto simp: nth_list_update less_Suc_eq)
  then show ?case unfolding step using len by simp
qed

lemma fill_levels_nth:
  assumes "\<forall>i<length sup0. sup0 ! i \<le> mx"
  shows "length (fill_levels sup0 (replicate (mx + 1) {})) = mx + 1"
    and "k \<le> mx \<Longrightarrow>
      fill_levels sup0 (replicate (mx + 1) {}) ! k = {i. i < length sup0 \<and> sup0 ! i = k}"
proof -
  have "\<forall>i<length sup0. sup0 ! i < length (replicate (mx + 1) ({}::nat set))"
    using assms by (simp add: less_Suc_eq_le)
  moreover have "\<forall>k<length (replicate (mx + 1) ({}::nat set)). replicate (mx + 1) ({}::nat set) ! k = {}"
    by (simp del: replicate_Suc)
  ultimately have *: "length (fill_levels sup0 (replicate (mx + 1) {})) =
      length (replicate (mx + 1) ({}::nat set)) \<and>
    (\<forall>k<length (replicate (mx + 1) ({}::nat set)).
      fill_levels sup0 (replicate (mx + 1) {}) ! k = {i. i < length sup0 \<and> sup0 ! i = k})"
    unfolding fill_levels_def by (rule fill_levels_upto) simp
  from * show "length (fill_levels sup0 (replicate (mx + 1) {})) = mx + 1" by simp
  from * show "k \<le> mx \<Longrightarrow>
      fill_levels sup0 (replicate (mx + 1) {}) ! k = {i. i < length sup0 \<and> sup0 ! i = k}"
    by (simp add: less_Suc_eq_le)
qed

lemma complete_level0_upto:
  assumes "support s0 = sup0" and "vec s0 ! 0 = {i. i < length sup0 \<and> sup0 ! i = 0}"
    and "completed s0 = replicate (length sup0) False" and "length (trussness s0) = length sup0"
    and "writes s0 = []" and "m \<le> length sup0"
  shows "level0_done sup0 m s0 (foldl record_level0 s0 [0..<m])"
  using assms(6)
proof (induction m)
  case 0
  with assms show ?case by (simp add: level0_done_def)
next
  case (Suc m)
  let ?s = "foldl record_level0 s0 [0..<m]"
  from Suc have IH: "level0_done sup0 m s0 ?s" and m: "m < length sup0" by simp_all
  have step: "foldl record_level0 s0 [0..<Suc m] = record_level0 ?s m" by simp
  show ?case
  proof (cases "sup0 ! m = 0")
    case True
    with IH m assms(2) have "m \<in> vec ?s ! 0" by (simp add: level0_done_def)
    then have eq: "record_level0 ?s m =
        ?s\<lparr>trussness := (trussness ?s)[m := 2], completed := (completed ?s)[m := True],
           writes := writes ?s @ [(0, m, 2)]\<rparr>"
      by (simp add: record_level0_def)
    show ?thesis unfolding step eq using IH m True
      unfolding level0_done_def
      by (auto simp: nth_list_update less_Suc_eq image_iff)
  next
    case False
    with IH m assms(2) have "m \<notin> vec ?s ! 0" by (simp add: level0_done_def)
    then have eq: "record_level0 ?s m = ?s" by (simp add: record_level0_def)
    show ?thesis unfolding step eq using IH m False
      unfolding level0_done_def
      by (auto simp: less_Suc_eq)
  qed
qed

lemma peel_init_inv:
  assumes mx: "igraph_vector_int_max sup0 = Some mx" and tr: "length tr = length sup0"
  shows "peel_inv sup0 mx 1 None (peel_init sup0 tr mx)"
proof -
  let ?n = "length sup0"
  define V where "V = fill_levels sup0 (replicate (mx + 1) {})"
  let ?ini = "\<lparr>support = sup0, completed = replicate ?n False,
              vec = V, trussness = tr, writes = []\<rparr>"
  let ?s = "peel_init sup0 tr mx"
  have le: "\<forall>i<?n. sup0 ! i \<le> mx" using igraph_vector_int_max_ge [OF mx] by simp
  have lenV: "length V = mx + 1" and nV: "\<And>k. k \<le> mx \<Longrightarrow> V ! k = {i. i < ?n \<and> sup0 ! i = k}"
    unfolding V_def using fill_levels_nth [OF le] by blast+
  have s: "?s = foldl record_level0 ?ini [0..<?n]"
    unfolding peel_init_def complete_level0_def V_def ..
  have "level0_done sup0 ?n ?ini (foldl record_level0 ?ini [0..<?n])"
    by (rule complete_level0_upto) (simp_all add: nV tr)
  then have d: "level0_done sup0 ?n ?ini ?s"
    unfolding s .
  then have sup: "support ?s = sup0" and v: "vec ?s = V"
    and lc: "length (completed ?s) = ?n" and lt: "length (trussness ?s) = ?n"
    and c: "\<forall>i<?n. completed ?s ! i \<longleftrightarrow> sup0 ! i = 0"
    and t: "\<forall>i<?n. completed ?s ! i \<longrightarrow> trussness ?s ! i = 2"
    and w1: "distinct (map (fst \<circ> snd) (writes ?s))"
    and w2: "(fst \<circ> snd) ` set (writes ?s) = {i. i < ?n \<and> sup0 ! i = 0}"
    and w3: "\<forall>w\<in>set (writes ?s). fst w = 0 \<and> snd (snd w) = 2"
    by (simp_all add: level0_done_def)
  have "sizes_ok ?n mx ?s"
    using le by (simp add: sizes_ok_def sup v lc lt lenV)
  moreover have "buckets_ok ?n None ?s"
    unfolding buckets_ok_def v sup
  proof (intro allI impI)
    fix k e assume "k < length V"
    then have "k \<le> mx" by (simp add: lenV)
    from nV [OF this] c
    show "e \<in> V ! k \<longleftrightarrow>
      e < ?n \<and> (if completed ?s ! e then k = 0 \<and> sup0 ! e = 0 else None \<noteq> Some e \<and> k = sup0 ! e)"
      by auto
  qed
  moreover have "levels_ok ?n 1 ?s"
    using c by (auto simp: levels_ok_def sup)
  moreover have "results_ok sup0 ?s"
    using c t by (auto simp: results_ok_def sup)
  moreover have "writes_ok ?n ?s"
    unfolding writes_ok_def sup
  proof (intro conjI allI ballI)
    show "distinct (map (fst \<circ> snd) (writes ?s))" by (rule w1)
    show "e \<in> (fst \<circ> snd) ` set (writes ?s) \<longleftrightarrow> e < ?n \<and> completed ?s ! e" for e
      unfolding w2 using c by auto
    fix w assume w: "w \<in> set (writes ?s)"
    then have "fst (snd w) \<in> (fst \<circ> snd) ` set (writes ?s)" by auto
    with w2 have "sup0 ! fst (snd w) = 0" by auto
    with w3 w show "fst w = sup0 ! fst (snd w)" by simp
    from w3 w show "snd (snd w) = fst w + 2" by simp
  qed
  ultimately show ?thesis by (simp add: peel_inv_def)
qed

lemma bucket_finite:
  assumes "peel_inv sup0 mx level popped s" and "k \<le> mx"
  shows "finite (vec s ! k)"
proof -
  from assms have "vec s ! k \<subseteq> {..<length sup0}"
    by (auto simp: peel_inv_def sizes_ok_def buckets_ok_def)
  then show ?thesis by (rule finite_subset) simp
qed

lemma tie_break_member:
  assumes "valid_tie_break first" and "peel_inv sup0 mx level None s" and "level \<le> mx"
    and "vec s ! level \<noteq> {}"
  shows "first s level \<in> vec s ! level"
  using assms(1,4) bucket_finite [OF assms(2,3)] by (simp add: valid_tie_break_def)

lemma next_level_inv:
  assumes inv: "peel_inv sup0 mx level None s" and lv: "level \<le> mx" and e: "vec s ! level = {}"
  shows "peel_inv sup0 mx (Suc level) None s"
proof -
  let ?n = "length sup0"
  from inv have sz: "sizes_ok ?n mx s" and bk: "buckets_ok ?n None s"
    and l: "levels_ok ?n level s"
    by (simp_all add: peel_inv_def)
  from sz lv have ll: "level < length (vec s)" by (simp add: sizes_ok_def)
  have "levels_ok ?n (Suc level) s"
    unfolding levels_ok_def
  proof (intro conjI allI impI)
    show "1 \<le> Suc level" by simp
    fix x assume x: "x < ?n"
    show "if completed s ! x then support s ! x \<le> Suc level else Suc level \<le> support s ! x"
    proof (cases "completed s ! x")
      case True
      with l x show ?thesis by (auto simp: levels_ok_def le_Suc_eq)
    next
      case False
      with l x have ge: "level \<le> support s ! x" by (auto simp: levels_ok_def)
      have "support s ! x \<noteq> level"
      proof
        assume "support s ! x = level"
        with bk ll x False have "x \<in> vec s ! level" by (simp add: buckets_ok_def)
        with e show False by simp
      qed
      with ge False show ?thesis by simp
    qed
  qed
  with inv show ?thesis by (simp add: peel_inv_def)
qed

lemma peel_reach_inv:
  assumes fb: "valid_tie_break first" and n: "length sup0 = igraph_ecount g"
    and tr: "length tr = length sup0" and mx: "igraph_vector_int_max sup0 = Some mx"
  shows "peel_reach first g sup0 tr level s \<Longrightarrow> peel_inv sup0 mx level None s"
proof (induction rule: peel_reach.induct)
  case (enter mx')
  with mx have "mx' = mx" by simp
  with peel_init_inv [OF mx tr] show ?case by simp
next
  case (seed level s mx' s')
  with mx have lv: "level \<le> mx" by simp
  from tie_break_member [OF fb seed.IH lv seed.hyps(4)]
  have "first s level \<in> vec s ! level" .
  from process_seed_inv [OF seed.IH lv this n seed.hyps(5)] show ?case .
next
  case (next_level level s mx')
  with mx have lv: "level \<le> mx" by simp
  from next_level_inv [OF next_level.IH lv next_level.hyps(4)] show ?case .
qed

lemma check_neighbors_frame:
  "check_neighbors g a b level ns s = Some s' \<Longrightarrow>
    completed s' = completed s \<and> trussness s' = trussness s \<and> writes s' = writes s"
proof (induction ns arbitrary: s)
  case Nil
  then show ?case by simp
next
  case (Cons n ns)
  from Cons.prems obtain e1 e2 where
    rest: "check_neighbors g a b level ns (demote_pair level e1 e2 s) = Some s'"
    by (auto split: option.splits)
  from Cons.IH [OF rest] show ?case by (simp add: demote_pair_def)
qed

lemma process_seed_frame:
  assumes "process_seed g al level seed s = Some s'"
  shows "completed s' = (completed s)[seed := True]"
    and "trussness s' = (trussness s)[seed := level + 2]"
    and "writes s' = writes s @ [(level, seed, level + 2)]"
proof -
  let ?s1 = "s\<lparr>vec := (vec s)[level := vec s ! level - {seed}]\<rparr>"
  from assms obtain a b s2 where
    s2: "check_neighbors g a b level (common_neighbors al a b) ?s1 = Some s2"
    and s': "s' = record_seed level seed s2"
    by (auto simp: process_seed_def Let_def split: option.splits prod.splits)
  from check_neighbors_frame [OF s2]
  show "completed s' = (completed s)[seed := True]"
    and "trussness s' = (trussness s)[seed := level + 2]"
    and "writes s' = writes s @ [(level, seed, level + 2)]"
    by (simp_all add: s' record_seed_def)
qed

lemma pending_update:
  "i < length xs \<Longrightarrow> \<not> xs ! i \<Longrightarrow>
    length (filter Not (xs[i := True])) < length (filter Not xs)"
proof (induction xs arbitrary: i)
  case Nil
  then show ?case by simp
next
  case (Cons x xs)
  show ?case
  proof (cases i)
    case 0
    with Cons.prems show ?thesis by simp
  next
    case (Suc j)
    with Cons.prems have "j < length xs" "\<not> xs ! j" by simp_all
    from Cons.IH [OF this] Suc show ?thesis by simp
  qed
qed

lemma peel_level_total:
  assumes g: "valid_graph g" and fb: "valid_tie_break first"
    and n: "length sup0 = igraph_ecount g" and tr: "length tr = length sup0"
    and mx: "igraph_vector_int_max sup0 = Some mx" and lv: "level \<le> mx"
  shows "peel_reach first g sup0 tr level s \<Longrightarrow>
    \<exists>s'. peel_level first g (truss_adjlist g) level s = Some s' \<and>
         peel_reach first g sup0 tr level s' \<and> vec s' ! level = {}"
proof (induction "pending s" arbitrary: s rule: less_induct)
  case less
  show ?case
  proof (cases "vec s ! level = {}")
    case True
    with less.prems show ?thesis by (simp add: peel_level.simps)
  next
    case False
    let ?seed = "first s level"
    note inv = peel_reach_inv [OF fb n tr mx less.prems]
    from tie_break_member [OF fb inv lv False] have sd: "?seed \<in> vec s ! level" .
    from seed_in_bucket [OF inv lv sd]
    have sn: "?seed < length sup0" and nc: "\<not> completed s ! ?seed" by simp_all
    from process_seed_Some [OF g, of ?seed level s] sn n obtain s1
      where s1: "process_seed g (truss_adjlist g) level ?seed s = Some s1" by auto
    from peel_reach.seed [OF less.prems mx lv False s1]
    have r1: "peel_reach first g sup0 tr level s1" .
    from inv sn have "?seed < length (completed s)" by (simp add: peel_inv_def sizes_ok_def)
    then have "pending s1 < pending s"
      unfolding pending_def process_seed_frame(1) [OF s1] using nc by (rule pending_update)
    from less.hyps [OF this r1] obtain s' where
      "peel_level first g (truss_adjlist g) level s1 = Some s'"
      "peel_reach first g sup0 tr level s'" "vec s' ! level = {}" by blast
    with False s1 show ?thesis by (simp add: peel_level.simps [of first g _ level s])
  qed
qed

lemma peel_levels_total:
  assumes g: "valid_graph g" and fb: "valid_tie_break first"
    and n: "length sup0 = igraph_ecount g" and tr: "length tr = length sup0"
    and mx: "igraph_vector_int_max sup0 = Some mx"
  shows "peel_reach first g sup0 tr level s \<Longrightarrow> level \<le> mx + 1 \<Longrightarrow>
    \<exists>s'. peel_levels first g (truss_adjlist g) [level..<mx + 1] s = Some s' \<and>
         peel_reach first g sup0 tr (mx + 1) s'"
proof (induction "mx + 1 - level" arbitrary: level s)
  case 0
  then have "level = mx + 1" by simp
  with "0.prems" show ?case by simp
next
  case (Suc d)
  then have lv: "level \<le> mx" by simp
  from peel_level_total [OF g fb n tr mx lv Suc.prems(1)] obtain s1 where
    s1: "peel_level first g (truss_adjlist g) level s = Some s1"
      "peel_reach first g sup0 tr level s1" "vec s1 ! level = {}" by blast
  from peel_reach.next_level [OF s1(2) mx lv s1(3)]
  have r: "peel_reach first g sup0 tr (Suc level) s1" .
  from Suc.hyps(2) have d: "d = mx + 1 - Suc level" by simp
  from lv have "Suc level \<le> mx + 1" by simp
  from Suc.hyps(1) [OF d r this] obtain s' where
    "peel_levels first g (truss_adjlist g) [Suc level..<mx + 1] s1 = Some s'"
    "peel_reach first g sup0 tr (mx + 1) s'" by blast
  moreover from lv have "[level..<mx + 1] = level # [Suc level..<mx + 1]"
    by (simp add: upt_conv_Cons)
  ultimately show ?case using s1(1) by simp
qed

lemma peel_run_total:
  assumes g: "valid_graph g" and fb: "valid_tie_break first"
    and n: "length sup0 = igraph_ecount g" and tr: "length tr = length sup0"
    and mx: "igraph_vector_int_max sup0 = Some mx"
  shows "\<exists>s. peel_run first g sup0 tr = Some s \<and> peel_reach first g sup0 tr (mx + 1) s"
  using peel_levels_total [OF g fb n tr mx peel_reach.enter [OF mx]] mx
  by (simp add: peel_run_def)

lemma final_all_completed:
  assumes "peel_inv sup0 mx (mx + 1) None s" and "e < length sup0"
  shows "completed s ! e"
proof (rule ccontr)
  assume "\<not> completed s ! e"
  with assms have "mx + 1 \<le> support s ! e" "support s ! e \<le> mx"
    by (auto simp: peel_inv_def levels_ok_def sizes_ok_def)
  then show False by simp
qed

section \<open>Properties of a run of the peeler\<close>

lemma first_min_valid: "valid_tie_break first_min"
  by (simp add: valid_tie_break_def first_min_def)

lemma first_max_valid: "valid_tie_break first_max"
  by (simp add: valid_tie_break_def first_max_def)

lemma k4_pendant_valid: "valid_graph k4_pendant"
  by (simp add: valid_graph_def k4_pendant_def)

text \<open>
  C9: a graph without edges is no error. \<open>igraph_i_trussness\<close> returns at once, with
  success and an empty vector, whatever the graph, the tie-break and the caller's vector
  are; the part of the function that computes the maximum support, the levels and the
  adjacency list is not run (on an empty support vector it has no result, since an empty
  vector has no maximum). \<open>igraph_trussness\<close> on a graph without edges, whose list of
  triangles is empty, returns the empty vector as well.
\<close>

theorem empty_graph_returns_empty:
  "igraph_i_trussness first g [] trussness0 junk = Some [] \<and>
   igraph_vector_int_max [] = None \<and>
   peel_run first g [] [] = None \<and>
   igraph_trussness first (g\<lparr>edges := []\<rparr>) [] trussness0 junk = Some []"
  by (simp add: igraph_i_trussness_def igraph_vector_int_resize_def peel_run_def
      igraph_trussness_def truss_support_def igraph_ecount_def
      igraph_truss_i_compute_support_def)

lemma demote_pair_effect:
  assumes "e1 \<noteq> e2" and "e1 < length (support s)" and "e2 < length (support s)"
    and "support s ! e1 < length (vec s)" and "support s ! e2 < length (vec s)"
  shows "(completed s ! e1 \<or> completed s ! e2 \<longrightarrow> demote_pair level e1 e2 s = s) \<and>
    (\<not> completed s ! e1 \<and> \<not> completed s ! e2 \<longrightarrow>
      (\<forall>e\<in>{e1, e2}.
         (level < support s ! e \<longrightarrow>
            support (demote_pair level e1 e2 s) ! e + 1 = support s ! e \<and>
            e \<in> vec (demote_pair level e1 e2 s) ! (support s ! e - 1) \<and>
            e \<notin> vec (demote_pair level e1 e2 s) ! (support s ! e) \<and>
            (\<forall>k<length (vec s). k \<noteq> support s ! e \<longrightarrow> k \<noteq> support s ! e - 1 \<longrightarrow>
               (e \<in> vec (demote_pair level e1 e2 s) ! k \<longleftrightarrow> e \<in> vec s ! k))) \<and>
         (support s ! e \<le> level \<longrightarrow>
            support (demote_pair level e1 e2 s) ! e = support s ! e \<and>
            (\<forall>k<length (vec s).
               e \<in> vec (demote_pair level e1 e2 s) ! k \<longleftrightarrow> e \<in> vec s ! k))) \<and>
      (\<forall>x. x \<noteq> e1 \<longrightarrow> x \<noteq> e2 \<longrightarrow>
         support (demote_pair level e1 e2 s) ! x = support s ! x \<and>
         (\<forall>k<length (vec s). x \<in> vec (demote_pair level e1 e2 s) ! k \<longleftrightarrow> x \<in> vec s ! k)) \<and>
      completed (demote_pair level e1 e2 s) = completed s \<and>
      trussness (demote_pair level e1 e2 s) = trussness s)"
proof -
  let ?s1 = "demote level e1 s" and ?s2 = "demote level e2 (demote level e1 s)"
  have sup1: "\<And>x. support ?s1 ! x =
      (if x = e1 \<and> level < support s ! e1 then support s ! e1 - 1 else support s ! x)"
    using demote_support [OF assms(2)] .
  have vec1: "\<And>x k. k < length (vec s) \<Longrightarrow> x \<in> vec ?s1 ! k \<longleftrightarrow>
     (if x = e1 \<and> level < support s ! e1
      then k = support s ! e1 - 1 \<or> (k \<noteq> support s ! e1 \<and> x \<in> vec s ! k)
      else x \<in> vec s ! k)"
    using demote_vec [OF assms(4)] .
  from assms(1) sup1 have same: "support ?s1 ! e2 = support s ! e2" by simp
  from assms(3) have l2: "e2 < length (support ?s1)" by simp
  from assms(5) same have b2: "support ?s1 ! e2 < length (vec ?s1)" by simp
  have sup2: "\<And>x. support ?s2 ! x =
      (if x = e2 \<and> level < support s ! e2 then support s ! e2 - 1 else support ?s1 ! x)"
    using demote_support [OF l2] same by simp
  have vec2: "\<And>x k. k < length (vec s) \<Longrightarrow> x \<in> vec ?s2 ! k \<longleftrightarrow>
     (if x = e2 \<and> level < support s ! e2
      then k = support s ! e2 - 1 \<or> (k \<noteq> support s ! e2 \<and> x \<in> vec ?s1 ! k)
      else x \<in> vec ?s1 ! k)"
    using demote_vec [OF b2] same by simp
  have lt: "\<And>e. level < support s ! e \<Longrightarrow> support s ! e - 1 \<noteq> support s ! e" by auto
  show ?thesis
  proof (cases "\<not> completed s ! e1 \<and> \<not> completed s ! e2")
    case False
    then show ?thesis by (auto simp: demote_pair_def)
  next
    case True
    then have eq: "demote_pair level e1 e2 s = ?s2" by (simp add: demote_pair_def)
    have b1': "\<And>e. level < support s ! e \<Longrightarrow> support s ! e < length (vec s) \<Longrightarrow>
        support s ! e - 1 < length (vec s)" by simp
    show ?thesis unfolding eq
      using True assms(1,4,5) by (simp add: sup1 sup2 vec1 vec2 b1') (use lt in auto)
  qed
qed

lemma resize_length: "length (igraph_vector_int_resize v n junk) = n"
  by (simp add: igraph_vector_int_resize_def)

lemma peel_final:
  assumes g: "valid_graph g" and fb: "valid_tie_break first"
    and n: "length sup0 = igraph_ecount g" and tr: "length tr = length sup0"
    and mx: "igraph_vector_int_max sup0 = Some mx"
  shows "\<exists>s. peel_run first g sup0 tr = Some s \<and> peel_reach first g sup0 tr (mx + 1) s \<and>
    peel_inv sup0 mx (mx + 1) None s \<and> (\<forall>e<length sup0. completed s ! e)"
proof -
  from peel_run_total [OF g fb n tr mx] obtain s where
    s: "peel_run first g sup0 tr = Some s" "peel_reach first g sup0 tr (mx + 1) s" by blast
  from peel_reach_inv [OF fb n tr mx s(2)] have inv: "peel_inv sup0 mx (mx + 1) None s" .
  with s final_all_completed [OF inv] show ?thesis by blast
qed

lemma truss_support_length:
  "truss_support g triangles = Some sup0 \<Longrightarrow> length sup0 = igraph_ecount g"
proof -
  have "length (foldl (\<lambda>support e. support[e := support ! e + 1]) s0 eid) = length s0"
    for eid :: "nat list" and s0 :: "nat list"
    by (induction eid arbitrary: s0) simp_all
  then show "truss_support g triangles = Some sup0 \<Longrightarrow> length sup0 = igraph_ecount g"
    by (auto simp: truss_support_def igraph_truss_i_compute_support_def split: option.splits)
qed

lemma peel_bounds:
  assumes g: "valid_graph g" and fb: "valid_tie_break first"
    and n: "length sup0 = igraph_ecount g" and ne: "sup0 \<noteq> []"
  shows "\<exists>t. igraph_i_trussness first g sup0 trussness0 junk = Some t \<and>
    length t = length sup0 \<and>
    (\<forall>e<length sup0. 2 \<le> t ! e \<and> t ! e \<le> 2 + Max (set sup0))"
proof -
  let ?tr = "igraph_vector_int_resize trussness0 (length sup0) junk"
  from ne obtain mx where mx: "igraph_vector_int_max sup0 = Some mx"
    by (cases sup0) auto
  from igraph_vector_int_max_Max [OF mx] have M: "mx = Max (set sup0)" by simp
  from peel_final [OF g fb n resize_length mx] obtain s where
    s: "peel_run first g sup0 ?tr = Some s" and inv: "peel_inv sup0 mx (mx + 1) None s"
    and c: "\<forall>e<length sup0. completed s ! e" by blast
  from inv have sz: "sizes_ok (length sup0) mx s" and rs: "results_ok sup0 s"
    by (simp_all add: peel_inv_def)
  have "2 \<le> trussness s ! e \<and> trussness s ! e \<le> 2 + mx" if "e < length sup0" for e
    using that c sz rs by (auto simp: sizes_ok_def results_ok_def)
  with s sz ne M show ?thesis
    by (simp add: igraph_i_trussness_def Let_def sizes_ok_def)
qed

text \<open>
  C7: on a graph with at least one edge, \<open>igraph_trussness\<close> returns a vector with one
  entry for every edge, and every entry is at least 2 and at most 2 plus the largest
  initial support.
\<close>

theorem trussness_bounds:
  assumes "valid_graph g" and "valid_tie_break first" and "edges g \<noteq> []"
    and "truss_support g triangles = Some sup0"
  shows "\<exists>t. igraph_trussness first g triangles trussness0 junk = Some t \<and>
    length t = igraph_ecount g \<and>
    (\<forall>e<igraph_ecount g. 2 \<le> t ! e \<and> t ! e \<le> 2 + Max (set sup0))"
proof -
  note n = truss_support_length [OF assms(4)]
  with assms(3) have "sup0 \<noteq> []" by (auto simp: igraph_ecount_def)
  from peel_bounds [OF assms(1,2) n this, of trussness0 junk] assms(4) n
  show ?thesis by (simp add: igraph_trussness_def)
qed

text \<open>
  C6: an edge whose initial support is 0 is complete and has trussness 2 in the state in
  which the loop over the levels is entered, and its entry in the vector that
  \<open>igraph_i_trussness\<close> returns is 2.
\<close>

theorem level0_edges_get_2:
  assumes g: "valid_graph g" and fb: "valid_tie_break first"
    and n: "length sup0 = igraph_ecount g" and e: "e < length sup0" and z: "sup0 ! e = 0"
  shows "(\<forall>mx tr. igraph_vector_int_max sup0 = Some mx \<longrightarrow> length tr = length sup0 \<longrightarrow>
       completed (peel_init sup0 tr mx) ! e \<and> trussness (peel_init sup0 tr mx) ! e = 2) \<and>
    (\<exists>t. igraph_i_trussness first g sup0 trussness0 junk = Some t \<and> t ! e = 2)"
proof
  show "\<forall>mx tr. igraph_vector_int_max sup0 = Some mx \<longrightarrow> length tr = length sup0 \<longrightarrow>
       completed (peel_init sup0 tr mx) ! e \<and> trussness (peel_init sup0 tr mx) ! e = 2"
  proof (intro allI impI)
    fix mx and tr :: "nat list"
    assume "igraph_vector_int_max sup0 = Some mx" "length tr = length sup0"
    from peel_init_inv [OF this] have "results_ok sup0 (peel_init sup0 tr mx)"
      by (simp add: peel_inv_def)
    with e z show "completed (peel_init sup0 tr mx) ! e \<and> trussness (peel_init sup0 tr mx) ! e = 2"
      by (auto simp: results_ok_def)
  qed
next
  let ?tr = "igraph_vector_int_resize trussness0 (length sup0) junk"
  from e obtain mx where mx: "igraph_vector_int_max sup0 = Some mx"
    by (cases sup0) auto
  from peel_final [OF g fb n resize_length mx] obtain s where
    s: "peel_run first g sup0 ?tr = Some s" and inv: "peel_inv sup0 mx (mx + 1) None s"
    by blast
  from inv have "results_ok sup0 s" by (simp add: peel_inv_def)
  with e z have "trussness s ! e = 2" by (auto simp: results_ok_def)
  with s e show "\<exists>t. igraph_i_trussness first g sup0 trussness0 junk = Some t \<and> t ! e = 2"
    by (auto simp: igraph_i_trussness_def Let_def)
qed

text \<open>
  C10: at every test of the while loop, at level \<open>level\<close>: an edge that is not completed
  has support at least \<open>level\<close>; the sets below \<open>level\<close> hold completed edges only;
  and demoting an edge whose support is above \<open>level\<close> lowers the support by one, to a
  value that is still at least \<open>level\<close>.
\<close>

theorem support_at_least_level:
  assumes fb: "valid_tie_break first" and n: "length sup0 = igraph_ecount g"
    and tr: "length tr = length sup0"
    and r: "peel_reach first g sup0 tr level s"
  shows "(\<forall>e<length sup0. \<not> completed s ! e \<longrightarrow> level \<le> support s ! e) \<and>
    (\<forall>k<level. k < length (vec s) \<longrightarrow> (\<forall>e\<in>vec s ! k. completed s ! e)) \<and>
    (\<forall>e<length sup0. level < support s ! e \<longrightarrow>
       support (demote level e s) ! e = support s ! e - 1 \<and>
       level \<le> support (demote level e s) ! e)"
proof -
  from r obtain mx where mx: "igraph_vector_int_max sup0 = Some mx"
    by (cases rule: peel_reach.cases) auto
  from peel_reach_inv [OF fb n tr mx r] have inv: "peel_inv sup0 mx level None s" .
  then have sz: "sizes_ok (length sup0) mx s" and bk: "buckets_ok (length sup0) None s"
    and lv: "levels_ok (length sup0) level s" by (simp_all add: peel_inv_def)
  have 1: "\<forall>e<length sup0. \<not> completed s ! e \<longrightarrow> level \<le> support s ! e"
    using lv by (auto simp: levels_ok_def)
  have 2: "\<forall>k<level. k < length (vec s) \<longrightarrow> (\<forall>e\<in>vec s ! k. completed s ! e)"
  proof (intro allI impI ballI)
    fix k e assume k: "k < level" "k < length (vec s)" and e: "e \<in> vec s ! k"
    show "completed s ! e"
    proof (rule ccontr)
      assume "\<not> completed s ! e"
      with bk k(2) e have "e < length sup0" "k = support s ! e"
        by (auto simp: buckets_ok_def split: if_splits)
      with 1 \<open>\<not> completed s ! e\<close> k(1) show False by auto
    qed
  qed
  have 3: "\<forall>e<length sup0. level < support s ! e \<longrightarrow>
       support (demote level e s) ! e = support s ! e - 1 \<and>
       level \<le> support (demote level e s) ! e"
    using sz by (auto simp: demote_support sizes_ok_def)
  from 1 2 3 show ?thesis by blast
qed

lemma peel_reach_max:
  "peel_reach first g sup0 tr level s \<Longrightarrow> \<exists>mx. igraph_vector_int_max sup0 = Some mx"
  by (cases rule: peel_reach.cases) auto

text \<open>
  C4, as amended: at every test of the while loop, an edge that is not completed is in
  exactly one set of \<open>vec\<close>, the one of its current support; a completed edge whose
  initial support is at least 1 is in no set; a completed edge whose initial support is 0
  is in set 0 and in no other (the pass over level 0 does not remove it). The sets hold
  edge ids only, and a completed edge stays completed.
\<close>

theorem bucket_membership:
  assumes fb: "valid_tie_break first" and n: "length sup0 = igraph_ecount g"
    and tr: "length tr = length sup0"
    and r: "peel_reach first g sup0 tr level s"
  shows "(\<forall>e<length sup0. \<forall>k<length (vec s).
        e \<in> vec s ! k \<longleftrightarrow>
          (if completed s ! e then k = 0 \<and> sup0 ! e = 0 else k = support s ! e)) \<and>
    (\<forall>e<length sup0. \<not> completed s ! e \<longrightarrow> support s ! e < length (vec s)) \<and>
    (\<forall>k<length (vec s). \<forall>e\<in>vec s ! k. e < length sup0) \<and>
    (\<forall>seed s'. process_seed g (truss_adjlist g) level seed s = Some s' \<longrightarrow>
       (\<forall>e<length sup0. completed s ! e \<longrightarrow> completed s' ! e))"
proof -
  from peel_reach_max [OF r] obtain mx where mx: "igraph_vector_int_max sup0 = Some mx" ..
  from peel_reach_inv [OF fb n tr mx r] have inv: "peel_inv sup0 mx level None s" .
  then have sz: "sizes_ok (length sup0) mx s" and bk: "buckets_ok (length sup0) None s"
    and rs: "results_ok sup0 s" by (simp_all add: peel_inv_def)
  have z: "support s ! e = 0 \<longleftrightarrow> sup0 ! e = 0" if "e < length sup0" "completed s ! e" for e
    using rs that by (auto simp: results_ok_def)
  have 1: "\<forall>e<length sup0. \<forall>k<length (vec s).
        e \<in> vec s ! k \<longleftrightarrow>
          (if completed s ! e then k = 0 \<and> sup0 ! e = 0 else k = support s ! e)"
    using bk z by (auto simp: buckets_ok_def)
  have 2: "\<forall>e<length sup0. \<not> completed s ! e \<longrightarrow> support s ! e < length (vec s)"
    using sz by (auto simp: sizes_ok_def less_Suc_eq_le)
  have 3: "\<forall>k<length (vec s). \<forall>e\<in>vec s ! k. e < length sup0"
    using bk by (auto simp: buckets_ok_def)
  have 4: "\<forall>seed s'. process_seed g (truss_adjlist g) level seed s = Some s' \<longrightarrow>
       (\<forall>e<length sup0. completed s ! e \<longrightarrow> completed s' ! e)"
  proof (intro allI impI)
    fix seed s' e
    assume "process_seed g (truss_adjlist g) level seed s = Some s'"
      and "e < length sup0" "completed s ! e"
    with process_seed_frame(1) [of g "truss_adjlist g" level seed s s'] sz
    show "completed s' ! e" by (cases "seed = e") (simp_all add: sizes_ok_def)
  qed
  from 1 2 3 4 show ?thesis by blast
qed

text \<open>
  C4 as it is stated fails on the graph with the single edge \<open>(0, 1)\<close>: at the end of the
  run the edge is completed and is still in set 0.
\<close>

theorem completed_edge_left_in_bucket:
  "peel_run first_min \<lparr>vcount = 2, edges = [(0, 1)]\<rparr> [0] [0] =
     Some \<lparr>support = [0], completed = [True], vec = [{0}], trussness = [2],
           writes = [(0, 0, 2)]\<rparr> \<and>
   completed (the (peel_run first_min \<lparr>vcount = 2, edges = [(0, 1)]\<rparr> [0] [0])) ! 0 \<and>
   0 \<in> vec (the (peel_run first_min \<lparr>vcount = 2, edges = [(0, 1)]\<rparr> [0] [0])) ! 0"
  by (simp add: peel_run_def peel_init_def complete_level0_def record_level0_def
      fill_levels_def)

lemma filter_distinct_one:
  "distinct (map f xs) \<Longrightarrow> e \<in> f ` set xs \<Longrightarrow> length (filter (\<lambda>w. f w = e) xs) = 1"
proof (induction xs)
  case Nil
  then show ?case by simp
next
  case (Cons x xs)
  show ?case
  proof (cases "f x = e")
    case True
    with Cons.prems(1) have "filter (\<lambda>w. f w = e) xs = []"
      by (fastforce simp: filter_empty_conv image_iff)
    with True show ?thesis by simp
  next
    case False
    with Cons show ?thesis by auto
  qed
qed

lemma k4_support_built: "truss_support k4_pendant k4_triangles = Some k4_support"
  by (simp add: truss_support_def k4_pendant_def k4_triangles_def k4_support_def
      igraph_get_eid_def igraph_truss_i_compute_support_def igraph_ecount_def)

lemma k4_max: "igraph_vector_int_max k4_support = Some 2"
  by (simp add: k4_support_def)

lemma k4_lengths: "length k4_support = igraph_ecount k4_pendant"
  "length (replicate 7 (0::nat)) = length k4_support" "k4_support \<noteq> []"
  "edges k4_pendant \<noteq> []"
  by (simp_all add: k4_support_def k4_pendant_def igraph_ecount_def)

lemma k4_enter: "peel_reach first_min k4_pendant k4_support (replicate 7 0) 1
    (peel_init k4_support (replicate 7 0) 2)"
  by (rule peel_reach.enter) (rule k4_max)

theorem trussness_bounds_witness:
  "valid_graph k4_pendant \<and> valid_tie_break first_min \<and> edges k4_pendant \<noteq> [] \<and>
   truss_support k4_pendant k4_triangles = Some k4_support \<and>
   (\<exists>t. igraph_trussness first_min k4_pendant k4_triangles [] (\<lambda>i. 0) = Some t \<and>
      length t = igraph_ecount k4_pendant \<and>
      (\<forall>e<igraph_ecount k4_pendant. 2 \<le> t ! e \<and> t ! e \<le> 2 + Max (set k4_support)))"
  using trussness_bounds [OF k4_pendant_valid first_min_valid k4_lengths(4) k4_support_built,
      of "[]" "\<lambda>i. 0"]
    k4_pendant_valid first_min_valid k4_lengths(4) k4_support_built
  by simp

theorem level0_edges_get_2_witness:
  "valid_graph k4_pendant \<and> valid_tie_break first_min \<and>
   length k4_support = igraph_ecount k4_pendant \<and> 6 < length k4_support \<and>
   k4_support ! 6 = 0 \<and>
   completed (peel_init k4_support (replicate 7 0) 2) ! 6 \<and>
   trussness (peel_init k4_support (replicate 7 0) 2) ! 6 = 2 \<and>
   (\<exists>t. igraph_i_trussness first_min k4_pendant k4_support [] (\<lambda>i. 0) = Some t \<and> t ! 6 = 2)"
proof -
  have e: "6 < length k4_support" "k4_support ! 6 = 0" by (simp_all add: k4_support_def)
  from level0_edges_get_2 [OF k4_pendant_valid first_min_valid k4_lengths(1) e, of "[]" "\<lambda>i. 0"]
    k4_max k4_lengths(2)
  have "completed (peel_init k4_support (replicate 7 0) 2) ! 6 \<and>
     trussness (peel_init k4_support (replicate 7 0) 2) ! 6 = 2 \<and>
     (\<exists>t. igraph_i_trussness first_min k4_pendant k4_support [] (\<lambda>i. 0) = Some t \<and> t ! 6 = 2)"
    by blast
  with k4_pendant_valid first_min_valid k4_lengths(1) e show ?thesis by blast
qed

theorem support_at_least_level_witness:
  "valid_tie_break first_min \<and> length k4_support = igraph_ecount k4_pendant \<and>
   length (replicate 7 (0::nat)) = length k4_support \<and>
   peel_reach first_min k4_pendant k4_support (replicate 7 0) 1
     (peel_init k4_support (replicate 7 0) 2) \<and>
   0 < length k4_support \<and>
   \<not> completed (peel_init k4_support (replicate 7 0) 2) ! 0 \<and>
   1 \<le> support (peel_init k4_support (replicate 7 0) 2) ! 0"
proof -
  have e: "0 < length k4_support" by (simp add: k4_support_def)
  have nc: "\<not> completed (peel_init k4_support (replicate 7 0) 2) ! 0"
    by code_simp
  from support_at_least_level [OF first_min_valid k4_lengths(1,2) k4_enter] e nc
  have "1 \<le> support (peel_init k4_support (replicate 7 0) 2) ! 0" by blast
  with first_min_valid k4_lengths(1,2) k4_enter e nc show ?thesis by blast
qed

theorem bucket_membership_witness:
  "valid_tie_break first_min \<and> length k4_support = igraph_ecount k4_pendant \<and>
   length (replicate 7 (0::nat)) = length k4_support \<and>
   peel_reach first_min k4_pendant k4_support (replicate 7 0) 1
     (peel_init k4_support (replicate 7 0) 2) \<and>
   0 < length k4_support \<and> 2 < length (vec (peel_init k4_support (replicate 7 0) 2)) \<and>
   (0 \<in> vec (peel_init k4_support (replicate 7 0) 2) ! 2) =
     (if completed (peel_init k4_support (replicate 7 0) 2) ! 0
      then (2::nat) = 0 \<and> k4_support ! 0 = 0
      else 2 = support (peel_init k4_support (replicate 7 0) 2) ! 0)"
proof -
  have e: "0 < length k4_support" by (simp add: k4_support_def)
  have k: "2 < length (vec (peel_init k4_support (replicate 7 0) 2))"
    by code_simp
  from bucket_membership [OF first_min_valid k4_lengths(1,2) k4_enter] e k
  have "(0 \<in> vec (peel_init k4_support (replicate 7 0) 2) ! 2) =
     (if completed (peel_init k4_support (replicate 7 0) 2) ! 0
      then (2::nat) = 0 \<and> k4_support ! 0 = 0
      else 2 = support (peel_init k4_support (replicate 7 0) 2) ! 0)"
    by blast
  with first_min_valid k4_lengths(1,2) k4_enter e k show ?thesis by blast
qed

section \<open>The support builder counts triangles\<close>

lemma unpack_flatten:
  "igraph_truss_i_unpack (flatten_triangles ts) =
     Some (concat (map (\<lambda>(a, b, c). [a, b, a, c, b, c]) ts))"
  by (induction ts rule: flatten_triangles.induct) simp_all

lemma is_triangle_eids:
  assumes "is_triangle g (a, b, c)"
  obtains e1 e2 e3 where "igraph_get_eid g a b = Some e1" and "igraph_get_eid g a c = Some e2"
    and "igraph_get_eid g b c = Some e3" and "a \<noteq> b" and "a \<noteq> c" and "b \<noteq> c"
proof -
  from assms have "igraph_get_eid g a b \<noteq> None" "igraph_get_eid g a c \<noteq> None"
    "igraph_get_eid g b c \<noteq> None" and d: "a \<noteq> b" "a \<noteq> c" "b \<noteq> c"
    by auto
  then obtain e1 e2 e3 where "igraph_get_eid g a b = Some e1" "igraph_get_eid g a c = Some e2"
    "igraph_get_eid g b c = Some e3" by blast
  with d that show thesis by blast
qed

lemma get_eids_triangles:
  "list_all (is_triangle g) ts \<Longrightarrow>
   igraph_get_eids g (concat (map (\<lambda>(a, b, c). [a, b, a, c, b, c]) ts)) =
     Some (concat (map (\<lambda>t. map the (triangle_eids g t)) ts))"
proof (induction ts rule: flatten_triangles.induct)
  case 1
  then show ?case by simp
next
  case (2 a b c ts)
  then have t: "is_triangle g (a, b, c)" and r: "list_all (is_triangle g) ts" by simp_all
  from t obtain e1 e2 e3 where "igraph_get_eid g a b = Some e1"
    "igraph_get_eid g a c = Some e2" "igraph_get_eid g b c = Some e3"
    by (rule is_triangle_eids)
  with "2.IH" [OF r] show ?case by simp
qed

lemma compute_support_count:
  "\<forall>e\<in>set eid. e < length s0 \<Longrightarrow>
   length (igraph_truss_i_compute_support eid s0) = length s0 \<and>
   (\<forall>e<length s0. igraph_truss_i_compute_support eid s0 ! e = s0 ! e + count_list eid e)"
  unfolding igraph_truss_i_compute_support_def
proof (induction eid arbitrary: s0)
  case Nil
  then show ?case by simp
next
  case (Cons x eid)
  let ?s1 = "s0[x := s0 ! x + 1]"
  from Cons.prems have "\<forall>e\<in>set eid. e < length ?s1" and x: "x < length s0" by simp_all
  from Cons.IH [OF this(1)] x show ?case
    by (auto simp: nth_list_update)
qed

lemma triangle_eids_less:
  assumes "is_triangle g t" and "e \<in> set (map the (triangle_eids g t))"
  shows "e < igraph_ecount g"
proof -
  obtain a b c where t: "t = (a, b, c)" by (cases t)
  from assms(1) [unfolded t] obtain e1 e2 e3 where e: "igraph_get_eid g a b = Some e1"
    "igraph_get_eid g a c = Some e2" "igraph_get_eid g b c = Some e3"
    by (rule is_triangle_eids)
  with assms(2) t have "e = e1 \<or> e = e2 \<or> e = e3" by auto
  with e show ?thesis by (auto dest: igraph_get_eid_less)
qed

lemma get_eid_ends:
  "igraph_get_eid g a b = Some e \<Longrightarrow> edges g ! e = (a, b) \<or> edges g ! e = (b, a)"
  by (auto simp: igraph_get_eid_def dest: first_eid_Some)

lemma triangle_count_one:
  assumes "is_triangle g t"
  shows "count_list (map the (triangle_eids g t)) e = (if triangle_has_eid g e t then 1 else 0)"
proof -
  obtain a b c where t: "t = (a, b, c)" by (cases t)
  from assms [unfolded t] obtain e1 e2 e3 where
    e: "igraph_get_eid g a b = Some e1" "igraph_get_eid g a c = Some e2"
      "igraph_get_eid g b c = Some e3"
    and d: "a \<noteq> b" "a \<noteq> c" "b \<noteq> c" by (rule is_triangle_eids)
  from get_eid_ends [OF e(1)] get_eid_ends [OF e(2)] get_eid_ends [OF e(3)] d
  have "e1 \<noteq> e2" "e1 \<noteq> e3" "e2 \<noteq> e3" by auto
  with e show ?thesis by (auto simp: t triangle_has_eid_def)
qed

lemma triangles_count:
  "list_all (is_triangle g) ts \<Longrightarrow>
   count_list (concat (map (\<lambda>t. map the (triangle_eids g t)) ts)) e =
     length (filter (triangle_has_eid g e) ts)"
proof (induction ts)
  case Nil
  then show ?case by simp
next
  case (Cons t ts)
  then have t: "is_triangle g t" and IH: "count_list (concat (map (\<lambda>t. map the (triangle_eids g t)) ts)) e =
     length (filter (triangle_has_eid g e) ts)" by simp_all
  have app: "count_list (xs @ ys) e = count_list xs e + count_list ys e" for xs ys :: "nat list"
    by (induction xs) simp_all
  show ?case using IH triangle_count_one [OF t, of e] by (simp add: app)
qed

lemma simple_edge_unique:
  assumes "simple_graph g" and "i < igraph_ecount g" and "j < igraph_ecount g"
    and "edges g ! i = (a, b) \<or> edges g ! i = (b, a)"
    and "edges g ! j = (a, b) \<or> edges g ! j = (b, a)"
  shows "i = j"
proof -
  let ?norm = "\<lambda>(a, b). (min a b, max a b) :: nat \<times> nat"
  from assms(1) have d: "distinct (map ?norm (edges g))" by (simp add: simple_graph_def)
  from assms(4,5) have "?norm (edges g ! i) = ?norm (edges g ! j)" by (auto simp: min_def max_def)
  with assms(2,3) have "map ?norm (edges g) ! i = map ?norm (edges g) ! j"
    by (simp add: igraph_ecount_def)
  moreover from d assms(2,3)
  have "(map ?norm (edges g) ! i = map ?norm (edges g) ! j) = (i = j)"
    by (intro nth_eq_iff_index_eq) (simp_all add: igraph_ecount_def)
  ultimately show ?thesis by blast
qed

lemma simple_get_eid:
  assumes "simple_graph g" and "e < igraph_ecount g"
    and "edges g ! e = (x, y) \<or> edges g ! e = (y, x)"
  shows "igraph_get_eid g x y = Some e"
proof -
  from assms(2,3) have "(x, y) \<in> set (edges g) \<or> (y, x) \<in> set (edges g)"
    unfolding igraph_ecount_def by (metis nth_mem)
  from first_eid_found [OF this] obtain i where i: "igraph_get_eid g x y = Some i"
    by (auto simp: igraph_get_eid_def)
  from simple_edge_unique [OF assms(1) igraph_get_eid_less [OF i] assms(2) get_eid_ends [OF i] assms(3)]
    i show ?thesis by simp
qed

lemma has_eid_in_triangle:
  assumes "is_triangle g t" and "triangle_has_eid g e t"
  shows "edge_in_triangle g e t"
proof -
  obtain a b c where t: "t = (a, b, c)" by (cases t)
  from assms(2) t have "igraph_get_eid g a b = Some e \<or> igraph_get_eid g a c = Some e \<or>
      igraph_get_eid g b c = Some e" by (auto simp: triangle_has_eid_def)
  moreover from assms(1) t have d: "a \<noteq> b" "a \<noteq> c" "b \<noteq> c" by auto
  ultimately show ?thesis
    using igraph_get_eid_less [of g a b e] igraph_get_eid_less [of g a c e]
      igraph_get_eid_less [of g b c e]
      get_eid_ends [of g a b e] get_eid_ends [of g a c e] get_eid_ends [of g b c e]
    by (auto simp: t igraph_edge_def)
qed

lemma in_triangle_has_eid:
  assumes "simple_graph g" and "edge_in_triangle g e t" and "is_triangle g t"
  shows "triangle_has_eid g e t"
proof -
  obtain a b c where t: "t = (a, b, c)" by (cases t)
  from assms(2) t obtain x y where e: "e < igraph_ecount g" "edges g ! e = (x, y)"
    and xy: "x \<noteq> y" "x \<in> {a, b, c}" "y \<in> {a, b, c}"
    by (auto simp: igraph_edge_def split: if_splits prod.splits)
  note u = simple_get_eid [OF assms(1) e(1)]
  from xy consider "x = a \<and> y = b" | "x = b \<and> y = a" | "x = a \<and> y = c" | "x = c \<and> y = a"
    | "x = b \<and> y = c" | "x = c \<and> y = b" by auto
  then show ?thesis
  proof cases
    case 1 with u [of a b] e(2) show ?thesis by (simp add: t triangle_has_eid_def)
  next
    case 2 with u [of a b] e(2) show ?thesis by (simp add: t triangle_has_eid_def)
  next
    case 3 with u [of a c] e(2) show ?thesis by (simp add: t triangle_has_eid_def)
  next
    case 4 with u [of a c] e(2) show ?thesis by (simp add: t triangle_has_eid_def)
  next
    case 5 with u [of b c] e(2) show ?thesis by (simp add: t triangle_has_eid_def)
  next
    case 6 with u [of b c] e(2) show ?thesis by (simp add: t triangle_has_eid_def)
  qed
qed

lemma truss_support_counts:
  assumes "list_all (is_triangle g) ts"
  shows "\<exists>sup0. truss_support g (flatten_triangles ts) = Some sup0 \<and>
    length sup0 = igraph_ecount g \<and>
    (\<forall>e<igraph_ecount g. sup0 ! e = length (filter (triangle_has_eid g e) ts)) \<and>
    (simple_graph g \<longrightarrow>
       (\<forall>e<igraph_ecount g. sup0 ! e = length (filter (edge_in_triangle g e) ts)))"
proof -
  let ?eid = "concat (map (\<lambda>t. map the (triangle_eids g t)) ts)"
  let ?z = "replicate (igraph_ecount g) (0::nat)"
  let ?sup = "igraph_truss_i_compute_support ?eid ?z"
  have ts: "truss_support g (flatten_triangles ts) = Some ?sup"
    by (simp add: truss_support_def unpack_flatten get_eids_triangles [OF assms])
  have "\<forall>e\<in>set ?eid. e < length ?z"
    using assms triangle_eids_less [of g] by (auto simp: list_all_iff simp del: triangle_eids.simps)
  from compute_support_count [OF this]
  have len: "length ?sup = igraph_ecount g"
    and cnt: "\<forall>e<igraph_ecount g. ?sup ! e = count_list ?eid e" by simp_all
  have 1: "\<forall>e<igraph_ecount g. ?sup ! e = length (filter (triangle_has_eid g e) ts)"
    using cnt triangles_count [OF assms] by simp
  have 2: "\<forall>e<igraph_ecount g. ?sup ! e = length (filter (edge_in_triangle g e) ts)"
    if sg: "simple_graph g"
  proof (intro allI impI)
    fix e assume e: "e < igraph_ecount g"
    have "filter (triangle_has_eid g e) ts = filter (edge_in_triangle g e) ts"
    proof (rule filter_cong [OF refl])
      fix t assume "t \<in> set ts"
      with assms have "is_triangle g t" by (simp add: list_all_iff)
      with has_eid_in_triangle [of g t e] in_triangle_has_eid [OF sg, of e t]
      show "triangle_has_eid g e t = edge_in_triangle g e t" by blast
    qed
    with 1 e show "?sup ! e = length (filter (edge_in_triangle g e) ts)" by simp
  qed
  from ts len 1 2 show ?thesis by blast
qed

text \<open>
  C3: for a list of triangles of the graph (three different vertices, an edge between each
  two), the support builder succeeds and returns a vector with one entry for every edge;
  the entry of edge \<open>e\<close> is the number of triangles of the list that have \<open>e\<close> as
  the edge of one of their three vertex pairs, so every triangle adds exactly one to each
  of its three edges. In a simple graph that is the number of triangles of the list that
  hold both ends of \<open>e\<close>.
\<close>

theorem support_counts_triangles:
  assumes "list_all (is_triangle g) ts"
  shows "\<exists>sup0. truss_support g (flatten_triangles ts) = Some sup0 \<and>
    length sup0 = igraph_ecount g \<and>
    (\<forall>e<igraph_ecount g. sup0 ! e = length (filter (triangle_has_eid g e) ts)) \<and>
    (simple_graph g \<longrightarrow>
       (\<forall>e<igraph_ecount g. sup0 ! e = length (filter (edge_in_triangle g e) ts)))"
  using assms by (rule truss_support_counts)

lemma k4_triples_flat: "flatten_triangles k4_triples = k4_triangles"
  by (simp add: k4_triples_def k4_triangles_def)

lemma k4_triples_ok: "list_all (is_triangle k4_pendant) k4_triples"
  by (simp add: k4_triples_def k4_pendant_def igraph_get_eid_def)

theorem support_counts_triangles_witness:
  "list_all (is_triangle k4_pendant) k4_triples \<and> simple_graph k4_pendant \<and>
   (\<exists>sup0. truss_support k4_pendant (flatten_triangles k4_triples) = Some sup0 \<and>
      length sup0 = igraph_ecount k4_pendant \<and>
      (\<forall>e<igraph_ecount k4_pendant.
         sup0 ! e = length (filter (triangle_has_eid k4_pendant e) k4_triples)) \<and>
      (\<forall>e<igraph_ecount k4_pendant.
         sup0 ! e = length (filter (edge_in_triangle k4_pendant e) k4_triples)))"
proof -
  have s: "simple_graph k4_pendant" by (simp add: simple_graph_def k4_pendant_def)
  from support_counts_triangles [OF k4_triples_ok] s k4_triples_ok show ?thesis by blast
qed

section \<open>The adjacency list of the peeler\<close>

lemma count_list_insort:
  "count_list (insort x xs) y = count_list (x # xs) y"
  by (induction xs) auto

lemma count_list_sort: "count_list (sort xs) y = count_list xs y"
  by (induction xs) (simp_all add: count_list_insort)

lemma count_list_concat_map:
  "count_list (concat (map f xs)) y = sum_list (map (\<lambda>x. count_list (f x) y) xs)"
  by (induction xs) simp_all

lemma length_filter_sum:
  "length (filter P xs) = sum_list (map (\<lambda>x. if P x then 1 else 0) xs)"
  by (induction xs) simp_all

lemma other_ends_count:
  "count_list (other_ends IGRAPH_NO_LOOPS v e) n =
     (if n \<noteq> v \<and> (e = (v, n) \<or> e = (n, v)) then 1 else 0)"
  by (cases e) (auto simp: other_ends_def)

lemma truss_adjlist_get:
  "v < vcount g \<Longrightarrow> igraph_adjlist_get (truss_adjlist g) v =
     sort (concat (map (other_ends IGRAPH_NO_LOOPS v) (edges g)))"
  by (simp add: truss_adjlist_def igraph_adjlist_sort_def igraph_adjlist_init_def
      igraph_adjlist_get_def)

lemma other_ends_distinct:
  "distinct (map (\<lambda>(a, b). (min a b, max a b)) es) \<Longrightarrow>
   distinct (concat (map (other_ends IGRAPH_NO_LOOPS v) es))"
proof (induction es)
  case Nil
  then show ?case by simp
next
  case (Cons e es)
  then have IH: "distinct (concat (map (other_ends IGRAPH_NO_LOOPS v) es))"
    and new: "(\<lambda>(a, b). (min a b, max a b)) e \<notin> (\<lambda>(a, b). (min a b, max a b)) ` set es"
    by simp_all
  have d: "distinct (other_ends IGRAPH_NO_LOOPS v e)"
    by (cases e) (simp add: other_ends_def)
  have "n \<notin> set (concat (map (other_ends IGRAPH_NO_LOOPS v) es))"
    if n: "n \<in> set (other_ends IGRAPH_NO_LOOPS v e)" for n
  proof
    assume "n \<in> set (concat (map (other_ends IGRAPH_NO_LOOPS v) es))"
    then obtain e' where e': "e' \<in> set es" "n \<in> set (other_ends IGRAPH_NO_LOOPS v e')"
      by auto
    from other_ends_edge [OF n] other_ends_edge [OF e'(2)]
    have "(\<lambda>(a, b). (min a b, max a b)) e = (\<lambda>(a, b). (min a b, max a b)) e'"
      by (auto simp: min_def max_def)
    with new e'(1) show False by force
  qed
  with IH d show ?case by auto
qed

text \<open>
  C5, as amended: the neighbour list of every vertex \<open>v\<close> in the adjacency structure of
  the peeler is sorted in ascending order and does not hold \<open>v\<close>; it holds a neighbour
  once for every edge between \<open>v\<close> and that neighbour, so it is free of duplicates when
  the graph has no parallel edges.
\<close>

theorem adjlist_neighbors:
  assumes "v < vcount g"
  shows "sorted (igraph_adjlist_get (truss_adjlist g) v) \<and>
    v \<notin> set (igraph_adjlist_get (truss_adjlist g) v) \<and>
    (\<forall>n. count_list (igraph_adjlist_get (truss_adjlist g) v) n =
       (if n = v then 0 else length (filter (\<lambda>e. e = (v, n) \<or> e = (n, v)) (edges g)))) \<and>
    (distinct (map (\<lambda>(a, b). (min a b, max a b)) (edges g)) \<longrightarrow>
       distinct (igraph_adjlist_get (truss_adjlist g) v))"
proof -
  note eq = truss_adjlist_get [OF assms]
  have c: "count_list (igraph_adjlist_get (truss_adjlist g) v) n =
       (if n = v then 0 else length (filter (\<lambda>e. e = (v, n) \<or> e = (n, v)) (edges g)))" for n
    unfolding eq count_list_sort count_list_concat_map other_ends_count length_filter_sum
    by (cases "n = v") simp_all
  from c [of v] have "v \<notin> set (igraph_adjlist_get (truss_adjlist g) v)"
    by (simp add: count_list_0_iff)
  moreover have "sorted (igraph_adjlist_get (truss_adjlist g) v)"
    unfolding eq by simp
  moreover have "distinct (igraph_adjlist_get (truss_adjlist g) v)"
    if "distinct (map (\<lambda>(a, b). (min a b, max a b)) (edges g))"
    unfolding eq using other_ends_distinct [OF that] by simp
  ultimately show ?thesis using c by blast
qed

text \<open>
  C5 as it is stated fails on the graph with two edges between the vertices 0 and 1: with
  \<open>IGRAPH_MULTIPLE\<close> the neighbour list of vertex 0 holds vertex 1 twice.
\<close>

theorem adjlist_keeps_parallel_edges:
  "igraph_adjlist_get (truss_adjlist parallel_pair) 0 = [1, 1] \<and>
   \<not> distinct (igraph_adjlist_get (truss_adjlist parallel_pair) 0)"
  by (simp add: parallel_pair_def truss_adjlist_def igraph_adjlist_sort_def
      igraph_adjlist_init_def igraph_adjlist_get_def other_ends_def)

theorem adjlist_neighbors_witness:
  "0 < vcount k4_pendant \<and>
   distinct (map (\<lambda>(a, b). (min a b, max a b)) (edges k4_pendant)) \<and>
   sorted (igraph_adjlist_get (truss_adjlist k4_pendant) 0) \<and>
   0 \<notin> set (igraph_adjlist_get (truss_adjlist k4_pendant) 0) \<and>
   count_list (igraph_adjlist_get (truss_adjlist k4_pendant) 0) 1 =
     length (filter (\<lambda>e. e = (0, 1) \<or> e = (1, 0)) (edges k4_pendant)) \<and>
   distinct (igraph_adjlist_get (truss_adjlist k4_pendant) 0)"
proof -
  have v: "0 < vcount k4_pendant"
    and d: "distinct (map (\<lambda>(a, b). (min a b, max a b)) (edges k4_pendant))"
    by (simp_all add: k4_pendant_def)
  from adjlist_neighbors [OF v] d
  have "sorted (igraph_adjlist_get (truss_adjlist k4_pendant) 0)"
    "0 \<notin> set (igraph_adjlist_get (truss_adjlist k4_pendant) 0)"
    "count_list (igraph_adjlist_get (truss_adjlist k4_pendant) 0) 1 =
       (if (1::nat) = 0 then 0
        else length (filter (\<lambda>e. e = (0, 1) \<or> e = (1, 0)) (edges k4_pendant)))"
    "distinct (igraph_adjlist_get (truss_adjlist k4_pendant) 0)"
    by blast+
  with v d show ?thesis by simp
qed

section \<open>The result does not depend on the tie-break\<close>

lemma simple_no_parallel: "simple_graph g \<Longrightarrow> no_parallel_edges g"
  by (simp add: simple_graph_def no_parallel_edges_def)

lemma edge_id_unique:
  assumes "no_parallel_edges g" and "i < igraph_ecount g" and "j < igraph_ecount g"
    and "edges g ! i = (a, b) \<or> edges g ! i = (b, a)"
    and "edges g ! j = (a, b) \<or> edges g ! j = (b, a)"
  shows "i = j"
proof -
  let ?norm = "\<lambda>(a, b). (min a b, max a b) :: nat \<times> nat"
  from assms(1) have d: "distinct (map ?norm (edges g))" by (simp add: no_parallel_edges_def)
  from assms(4,5) have "?norm (edges g ! i) = ?norm (edges g ! j)" by (auto simp: min_def max_def)
  with assms(2,3) have "map ?norm (edges g) ! i = map ?norm (edges g) ! j"
    by (simp add: igraph_ecount_def)
  moreover from d assms(2,3)
  have "(map ?norm (edges g) ! i = map ?norm (edges g) ! j) = (i = j)"
    by (intro nth_eq_iff_index_eq) (simp_all add: igraph_ecount_def)
  ultimately show ?thesis by blast
qed

lemma get_eid_of_edge:
  assumes "no_parallel_edges g" and "e < igraph_ecount g"
    and "edges g ! e = (x, y) \<or> edges g ! e = (y, x)"
  shows "igraph_get_eid g x y = Some e"
proof -
  from assms(2,3) have "(x, y) \<in> set (edges g) \<or> (y, x) \<in> set (edges g)"
    unfolding igraph_ecount_def by (metis nth_mem)
  from first_eid_found [OF this] obtain i where i: "igraph_get_eid g x y = Some i"
    by (auto simp: igraph_get_eid_def)
  from edge_id_unique [OF assms(1) igraph_get_eid_less [OF i] assms(2) get_eid_ends [OF i] assms(3)]
    i show ?thesis by simp
qed

lemma intersect_sorted_set:
  "sorted xs \<Longrightarrow> sorted ys \<Longrightarrow>
    set (igraph_vector_int_intersect_sorted xs ys) = set xs \<inter> set ys"
proof (induction xs ys rule: igraph_vector_int_intersect_sorted.induct)
  case (1 ys)
  then show ?case by simp
next
  case (2 x xs)
  then show ?case by simp
next
  case (3 x xs y ys)
  show ?case
  proof (cases "x < y")
    case True
    with 3 have "set (igraph_vector_int_intersect_sorted xs (y # ys)) = set xs \<inter> set (y # ys)"
      by simp
    moreover from True "3.prems"(2) have "x \<notin> set (y # ys)" by auto
    ultimately show ?thesis using True by auto
  next
    case False
    show ?thesis
    proof (cases "y < x")
      case True
      with False 3 have "set (igraph_vector_int_intersect_sorted (x # xs) ys) = set (x # xs) \<inter> set ys"
        by simp
      moreover from True "3.prems"(1) have "y \<notin> set (x # xs)" by auto
      ultimately show ?thesis using True False by auto
    next
      case F2: False
      with False have eq: "x = y" by simp
      with False F2 3 have "set (igraph_vector_int_intersect_sorted xs ys) = set xs \<inter> set ys"
        by simp
      with eq show ?thesis by auto
    qed
  qed
qed

lemma intersect_sorted_distinct:
  "distinct xs \<Longrightarrow> distinct (igraph_vector_int_intersect_sorted xs ys)"
proof (induction xs ys rule: igraph_vector_int_intersect_sorted.induct)
  case (3 x xs y ys)
  from intersect_sorted_subset [of xs ys] "3.prems"
  have "x \<notin> set (igraph_vector_int_intersect_sorted xs ys)" by auto
  with 3 show ?case by auto
qed simp_all

lemma adjlist_set:
  assumes "v < vcount g"
  shows "set (igraph_adjlist_get (truss_adjlist g) v) = {n. adjacent g v n}"
proof -
  have "n \<in> set (other_ends IGRAPH_NO_LOOPS v e) \<longleftrightarrow> n \<noteq> v \<and> (e = (v, n) \<or> e = (n, v))" for n e
    by (cases e) (auto simp: other_ends_def)
  then show ?thesis
    unfolding truss_adjlist_get [OF assms] adjacent_def by auto
qed

lemma adjlist_sorted_distinct:
  assumes "v < vcount g" and "no_parallel_edges g"
  shows "sorted (igraph_adjlist_get (truss_adjlist g) v)"
    and "distinct (igraph_adjlist_get (truss_adjlist g) v)"
  using assms other_ends_distinct [of "edges g" v]
  by (simp_all add: truss_adjlist_get no_parallel_edges_def)

lemma common_neighbors_simple:
  assumes "a < vcount g" and "b < vcount g" and "no_parallel_edges g"
  shows "set (common_neighbors (truss_adjlist g) a b) = {n. adjacent g a n \<and> adjacent g b n}"
    and "distinct (common_neighbors (truss_adjlist g) a b)"
proof -
  note sa = adjlist_sorted_distinct [OF assms(1,3)] and sb = adjlist_sorted_distinct [OF assms(2,3)]
  from intersect_sorted_set [OF sa(1) sb(1)] intersect_sorted_set [OF sb(1) sa(1)]
  show "set (common_neighbors (truss_adjlist g) a b) = {n. adjacent g a n \<and> adjacent g b n}"
    by (auto simp: common_neighbors_def Let_def adjlist_set [OF assms(1)] adjlist_set [OF assms(2)])
  from intersect_sorted_distinct [OF sa(2)] intersect_sorted_distinct [OF sb(2)]
  show "distinct (common_neighbors (truss_adjlist g) a b)"
    by (simp add: common_neighbors_def Let_def)
qed


lemma adjacent_eid:
  assumes "adjacent g u v"
  shows "igraph_get_eid g u v = Some (eid_of g u v)" and "eid_of g u v < igraph_ecount g"
    and "edges g ! eid_of g u v = (u, v) \<or> edges g ! eid_of g u v = (v, u)"
proof -
  from assms have "(u, v) \<in> set (edges g) \<or> (v, u) \<in> set (edges g)" by (simp add: adjacent_def)
  from first_eid_found [OF this] obtain i where i: "igraph_get_eid g u v = Some i"
    by (auto simp: igraph_get_eid_def)
  then show "igraph_get_eid g u v = Some (eid_of g u v)" by (simp add: eid_of_def)
  from igraph_get_eid_less [OF i] i show "eid_of g u v < igraph_ecount g" by (simp add: eid_of_def)
  from get_eid_ends [OF i] i
  show "edges g ! eid_of g u v = (u, v) \<or> edges g ! eid_of g u v = (v, u)"
    by (simp add: eid_of_def)
qed



lemma eid_of_unique:
  assumes "no_parallel_edges g" and "e < igraph_ecount g"
    and "edges g ! e = (u, v) \<or> edges g ! e = (v, u)"
  shows "eid_of g u v = e"
  using get_eid_of_edge [OF assms] by (simp add: eid_of_def)

lemma eid_of_sym:
  assumes "no_parallel_edges g" and "adjacent g u v"
  shows "eid_of g v u = eid_of g u v"
proof -
  from adjacent_eid(3) [OF assms(2)]
  have "edges g ! eid_of g u v = (v, u) \<or> edges g ! eid_of g u v = (u, v)" by blast
  then show ?thesis by (rule eid_of_unique [OF assms(1) adjacent_eid(2) [OF assms(2)]])
qed

lemma eid_of_inj:
  assumes "no_parallel_edges g" and "adjacent g u v" and "adjacent g p q"
    and "eid_of g u v = eid_of g p q"
  shows "(u = p \<and> v = q) \<or> (u = q \<and> v = p)"
proof -
  from adjacent_eid(3) [OF assms(2)]
  have "edges g ! eid_of g p q = (u, v) \<or> edges g ! eid_of g p q = (v, u)"
    unfolding assms(4) .
  with adjacent_eid(3) [OF assms(3)] show ?thesis by auto
qed





lemma demote_pair_frame [simp]:
  "completed (demote_pair level e1 e2 s) = completed s"
  "length (support (demote_pair level e1 e2 s)) = length (support s)"
  by (simp_all add: demote_pair_def)





lemma eid_of_eq_iff:
  assumes "no_parallel_edges g" and "adjacent g u v" and "adjacent g p q"
  shows "eid_of g u v = eid_of g p q \<longleftrightarrow> (u = p \<and> v = q) \<or> (u = q \<and> v = p)"
proof
  assume "eid_of g u v = eid_of g p q"
  from eid_of_inj [OF assms this] show "(u = p \<and> v = q) \<or> (u = q \<and> v = p)" .
next
  assume "(u = p \<and> v = q) \<or> (u = q \<and> v = p)"
  with eid_of_sym [OF assms(1,3)] show "eid_of g u v = eid_of g p q" by auto
qed
















lemma peel_init_state:
  assumes mx: "igraph_vector_int_max sup0 = Some mx" and tr: "length tr = length sup0"
  shows "support (peel_init sup0 tr mx) = sup0"
    and "length (completed (peel_init sup0 tr mx)) = length sup0"
    and "\<forall>i<length sup0. completed (peel_init sup0 tr mx) ! i \<longleftrightarrow> sup0 ! i = 0"
proof -
  let ?n = "length sup0"
  define V where "V = fill_levels sup0 (replicate (mx + 1) {})"
  let ?ini = "\<lparr>support = sup0, completed = replicate ?n False,
              vec = V, trussness = tr, writes = []\<rparr>"
  have le: "\<forall>i<?n. sup0 ! i \<le> mx" using igraph_vector_int_max_ge [OF mx] by simp
  have nV: "\<And>k. k \<le> mx \<Longrightarrow> V ! k = {i. i < ?n \<and> sup0 ! i = k}"
    unfolding V_def using fill_levels_nth [OF le] by blast
  have s: "peel_init sup0 tr mx = foldl record_level0 ?ini [0..<?n]"
    unfolding peel_init_def complete_level0_def V_def ..
  have "level0_done sup0 ?n ?ini (foldl record_level0 ?ini [0..<?n])"
    by (rule complete_level0_upto) (simp_all add: nV tr)
  then have d: "level0_done sup0 ?n ?ini (peel_init sup0 tr mx)"
    unfolding s .
  then show "support (peel_init sup0 tr mx) = sup0"
    and "length (completed (peel_init sup0 tr mx)) = length sup0"
    and "\<forall>i<length sup0. completed (peel_init sup0 tr mx) ! i \<longleftrightarrow> sup0 ! i = 0"
    by (simp_all add: level0_done_def)
qed








section \<open>Every triangle listed once: the whole computation\<close>








lemma k4_ear_valid: "valid_graph k4_ear"
  by (simp add: valid_graph_def k4_ear_def)






section \<open>Every entry of the result is assigned once\<close>

lemma complete_level0_vec: "vec (foldl record_level0 s xs) = vec s"
  by (induction xs arbitrary: s) (simp_all add: record_level0_def)

lemma peel_init_vec: "vec (peel_init sup0 tr mx) = fill_levels sup0 (replicate (mx + 1) {})"
  unfolding peel_init_def complete_level0_def complete_level0_vec by simp

lemma peel_reach_level: "peel_reach first g sup0 tr level s \<Longrightarrow> 1 \<le> level"
  by (induction rule: peel_reach.induct) simp_all

lemma peel_reach_writes:
  assumes mx: "igraph_vector_int_max sup0 = Some mx"
  shows "peel_reach first g sup0 tr level s \<Longrightarrow>
    \<exists>ws. writes s = writes (peel_init sup0 tr mx) @ ws \<and> (\<forall>w\<in>set ws. 1 \<le> fst w)"
proof (induction rule: peel_reach.induct)
  case (enter mx')
  with mx show ?case by simp
next
  case (seed level s mx' s')
  from seed.IH obtain ws where
    ws: "writes s = writes (peel_init sup0 tr mx) @ ws" "\<forall>w\<in>set ws. 1 \<le> fst w" by blast
  from process_seed_frame(3) [OF seed.hyps(5)] ws(1)
  have "writes s' = writes (peel_init sup0 tr mx) @ (ws @ [(level, first s level, level + 2)])"
    by simp
  moreover from peel_reach_level [OF seed.hyps(1)] ws(2)
  have "\<forall>w\<in>set (ws @ [(level, first s level, level + 2)]). 1 \<le> fst w" by simp
  ultimately show ?case by blast
next
  case (next_level level s mx')
  then show ?case by simp
qed

lemma level0_writes:
  assumes mx: "igraph_vector_int_max sup0 = Some mx" and tr: "length tr = length sup0"
    and w: "w \<in> set (writes (peel_init sup0 tr mx))"
  shows "fst w = 0" and "fst (snd w) < length sup0" and "sup0 ! fst (snd w) = 0"
    and "fst (snd w) \<in> vec (peel_init sup0 tr mx) ! 0"
proof -
  let ?s = "peel_init sup0 tr mx"
  from peel_init_inv [OF mx tr] have wr: "writes_ok (length sup0) ?s"
    and bk: "buckets_ok (length sup0) None ?s" and sz: "sizes_ok (length sup0) mx ?s"
    by (simp_all add: peel_inv_def)
  from w have "fst (snd w) \<in> (fst \<circ> snd) ` set (writes ?s)" by auto
  with wr have e: "fst (snd w) < length sup0" and c: "completed ?s ! fst (snd w)"
    by (simp_all add: writes_ok_def)
  from e show "fst (snd w) < length sup0" .
  from peel_init_state(3) [OF mx tr] e c show z: "sup0 ! fst (snd w) = 0" by simp
  from wr w have "fst w = support ?s ! fst (snd w)" by (simp add: writes_ok_def)
  with z peel_init_state(1) [OF mx tr] show f: "fst w = 0" by simp
  from sz have "0 < length (vec ?s)" by (simp add: sizes_ok_def)
  with bk e c z peel_init_state(1) [OF mx tr] show "fst (snd w) \<in> vec ?s ! 0"
    by (simp add: buckets_ok_def)
qed

text \<open>
  C2, as amended: in a whole run, every edge has exactly one assignment to its entry of
  \<open>trussness\<close>; the value of each assignment is the level being processed plus 2, and it
  is the value that the entry has at the end. The assignments of the pass over \<open>vec[0]\<close>
  (lines 185 to 188) come first: they are at level 0, with value 2, for the edges of
  initial support 0, and the pass changes no set: such an edge is in \<open>vec[0]\<close> when it is
  assigned and is still there at the end of the run. All other assignments are made at a
  level from 1 on, by a turn of the while loop, and their edges are in no set at the end:
  every turn of the while loop takes the edge \<open>first s level\<close> from the set of the
  level, leaves it in no set, and makes the one assignment
  \<open>trussness[seed] = level + 2\<close>.
\<close>

theorem trussness_written_once:
  assumes g: "valid_graph g" and fb: "valid_tie_break first"
    and n: "length sup0 = igraph_ecount g" and tr: "length tr = length sup0"
    and ne: "sup0 \<noteq> []"
  shows "(\<exists>mx s ws. igraph_vector_int_max sup0 = Some mx \<and>
       peel_run first g sup0 tr = Some s \<and>
       (\<forall>e<length sup0. length (filter (\<lambda>w. fst (snd w) = e) (writes s)) = 1) \<and>
       (\<forall>w\<in>set (writes s). snd (snd w) = fst w + 2 \<and>
          trussness s ! fst (snd w) = snd (snd w) \<and>
          (fst w = 0 \<longleftrightarrow> sup0 ! fst (snd w) = 0)) \<and>
       writes s = writes (peel_init sup0 tr mx) @ ws \<and>
       vec (peel_init sup0 tr mx) = fill_levels sup0 (replicate (mx + 1) {}) \<and>
       (\<forall>w\<in>set (writes (peel_init sup0 tr mx)).
          fst w = 0 \<and> fst (snd w) \<in> vec (peel_init sup0 tr mx) ! 0 \<and>
          fst (snd w) \<in> vec s ! 0) \<and>
       (\<forall>w\<in>set ws. 1 \<le> fst w \<and> (\<forall>k<length (vec s). fst (snd w) \<notin> vec s ! k))) \<and>
    (\<forall>level s s'. peel_reach first g sup0 tr level s \<longrightarrow> level < length (vec s) \<longrightarrow>
       vec s ! level \<noteq> {} \<longrightarrow>
       process_seed g (truss_adjlist g) level (first s level) s = Some s' \<longrightarrow>
         first s level \<in> vec s ! level \<and>
         (\<forall>k<length (vec s'). first s level \<notin> vec s' ! k) \<and>
         trussness s' = (trussness s)[first s level := level + 2] \<and>
         writes s' = writes s @ [(level, first s level, level + 2)])"
proof
  from ne obtain mx where mx: "igraph_vector_int_max sup0 = Some mx"
    by (cases sup0) auto
  from peel_final [OF g fb n tr mx] obtain s where
    s: "peel_run first g sup0 tr = Some s" and r: "peel_reach first g sup0 tr (mx + 1) s"
    and inv: "peel_inv sup0 mx (mx + 1) None s"
    and c: "\<forall>e<length sup0. completed s ! e" by blast
  from inv have rs: "results_ok sup0 s" and wr: "writes_ok (length sup0) s"
    and bk: "buckets_ok (length sup0) None s" and sz: "sizes_ok (length sup0) mx s"
    by (simp_all add: peel_inv_def)
  from wr have d: "distinct (map (fst \<circ> snd) (writes s))"
    and m: "\<And>e. e \<in> (fst \<circ> snd) ` set (writes s) \<longleftrightarrow> e < length sup0 \<and> completed s ! e"
    and v: "\<And>w. w \<in> set (writes s) \<Longrightarrow> fst w = support s ! fst (snd w) \<and> snd (snd w) = fst w + 2"
    by (simp_all add: writes_ok_def)
  from peel_reach_writes [OF mx r] obtain ws where
    ws: "writes s = writes (peel_init sup0 tr mx) @ ws" and lw: "\<forall>w\<in>set ws. 1 \<le> fst w"
    by blast
  have once: "length (filter (\<lambda>w. fst (snd w) = e) (writes s)) = 1" if "e < length sup0" for e
  proof -
    from that c m have "e \<in> (fst \<circ> snd) ` set (writes s)" by simp
    from filter_distinct_one [OF d this] show ?thesis by simp
  qed
  have vals: "snd (snd w) = fst w + 2 \<and> trussness s ! fst (snd w) = snd (snd w) \<and>
      (fst w = 0 \<longleftrightarrow> sup0 ! fst (snd w) = 0)" if "w \<in> set (writes s)" for w
  proof -
    from that have "fst (snd w) \<in> (fst \<circ> snd) ` set (writes s)" by auto
    with m have e: "fst (snd w) < length sup0" "completed s ! fst (snd w)" by simp_all
    with rs v [OF that] show ?thesis by (auto simp: results_ok_def)
  qed
  have zero: "fst w = 0 \<and> fst (snd w) \<in> vec (peel_init sup0 tr mx) ! 0 \<and>
      fst (snd w) \<in> vec s ! 0" if w: "w \<in> set (writes (peel_init sup0 tr mx))" for w
  proof -
    note l0 = level0_writes [OF mx tr w]
    from rs l0(2,3) have "support s ! fst (snd w) = 0" by (auto simp: results_ok_def)
    moreover from sz have "0 < length (vec s)" by (simp add: sizes_ok_def)
    ultimately have "fst (snd w) \<in> vec s ! 0" using bk c l0(2) by (simp add: buckets_ok_def)
    with l0(1,4) show ?thesis by simp
  qed
  have later: "1 \<le> fst w \<and> (\<forall>k<length (vec s). fst (snd w) \<notin> vec s ! k)"
    if w: "w \<in> set ws" for w
  proof -
    from w ws have ww: "w \<in> set (writes s)" by simp
    then have "fst (snd w) \<in> (fst \<circ> snd) ` set (writes s)" by auto
    with m have e: "fst (snd w) < length sup0" "completed s ! fst (snd w)" by simp_all
    from lw w have l: "1 \<le> fst w" by simp
    with v [OF ww] have "support s ! fst (snd w) \<noteq> 0" by simp
    with bk e l show ?thesis by (simp add: buckets_ok_def)
  qed
  from mx s once vals ws peel_init_vec [of sup0 tr mx] zero later
  show "\<exists>mx s ws. igraph_vector_int_max sup0 = Some mx \<and>
       peel_run first g sup0 tr = Some s \<and>
       (\<forall>e<length sup0. length (filter (\<lambda>w. fst (snd w) = e) (writes s)) = 1) \<and>
       (\<forall>w\<in>set (writes s). snd (snd w) = fst w + 2 \<and>
          trussness s ! fst (snd w) = snd (snd w) \<and>
          (fst w = 0 \<longleftrightarrow> sup0 ! fst (snd w) = 0)) \<and>
       writes s = writes (peel_init sup0 tr mx) @ ws \<and>
       vec (peel_init sup0 tr mx) = fill_levels sup0 (replicate (mx + 1) {}) \<and>
       (\<forall>w\<in>set (writes (peel_init sup0 tr mx)).
          fst w = 0 \<and> fst (snd w) \<in> vec (peel_init sup0 tr mx) ! 0 \<and>
          fst (snd w) \<in> vec s ! 0) \<and>
       (\<forall>w\<in>set ws. 1 \<le> fst w \<and> (\<forall>k<length (vec s). fst (snd w) \<notin> vec s ! k))"
    by blast
next
  show "\<forall>level s s'. peel_reach first g sup0 tr level s \<longrightarrow> level < length (vec s) \<longrightarrow>
       vec s ! level \<noteq> {} \<longrightarrow>
       process_seed g (truss_adjlist g) level (first s level) s = Some s' \<longrightarrow>
         first s level \<in> vec s ! level \<and>
         (\<forall>k<length (vec s'). first s level \<notin> vec s' ! k) \<and>
         trussness s' = (trussness s)[first s level := level + 2] \<and>
         writes s' = writes s @ [(level, first s level, level + 2)]"
  proof (intro allI impI)
    fix level s s'
    assume r: "peel_reach first g sup0 tr level s" and l: "level < length (vec s)"
      and b: "vec s ! level \<noteq> {}"
      and p: "process_seed g (truss_adjlist g) level (first s level) s = Some s'"
    from peel_reach_max [OF r] obtain mx where mx: "igraph_vector_int_max sup0 = Some mx" ..
    from peel_reach_inv [OF fb n tr mx r] have inv: "peel_inv sup0 mx level None s" .
    with l have lv: "level \<le> mx" by (simp add: peel_inv_def sizes_ok_def)
    from tie_break_member [OF fb inv lv b] have sd: "first s level \<in> vec s ! level" .
    from seed_in_bucket [OF inv lv sd] have sn: "first s level < length sup0"
      and ss: "support s ! first s level = level" by simp_all
    from process_seed_inv [OF inv lv sd n p] have inv': "peel_inv sup0 mx level None s'" .
    then have bk: "buckets_ok (length sup0) None s'" and l1: "1 \<le> level"
      and lvs: "levels_ok (length sup0) level s'" and rs: "results_ok sup0 s'"
      by (simp_all add: peel_inv_def levels_ok_def)
    from inv sn have "first s level < length (completed s)"
      by (simp add: peel_inv_def sizes_ok_def)
    with process_seed_frame(1) [OF p] have cs: "completed s' ! first s level" by simp
    have "first s level \<notin> vec s' ! k" if k: "k < length (vec s')" for k
    proof
      assume "first s level \<in> vec s' ! k"
      with bk k cs have "support s' ! first s level = 0" by (simp add: buckets_ok_def)
      moreover from rs sn cs have "trussness s' ! first s level = support s' ! first s level + 2"
        by (simp add: results_ok_def)
      moreover from inv sn have "first s level < length (trussness s)"
        by (simp add: peel_inv_def sizes_ok_def)
      with process_seed_frame(2) [OF p] have "trussness s' ! first s level = level + 2" by simp
      ultimately show False using l1 by simp
    qed
    with sd process_seed_frame(2,3) [OF p]
    show "first s level \<in> vec s ! level \<and>
         (\<forall>k<length (vec s'). first s level \<notin> vec s' ! k) \<and>
         trussness s' = (trussness s)[first s level := level + 2] \<and>
         writes s' = writes s @ [(level, first s level, level + 2)]"
      by blast
  qed
qed

text \<open>
  The run on a complete graph of 4 vertices with one more edge apart (edge 6, of support
  0): the only assignment of the pass over \<open>vec[0]\<close> is that of 2 to the entry of edge 6,
  and edge 6 is in \<open>vec[0]\<close> before the pass, after it, and at the end of the run. So an
  assignment to \<open>trussness\<close> is not always made at the moment its edge leaves its set.
\<close>

theorem level0_write_keeps_bucket:
  "fill_levels k4_support (replicate (2 + 1) {}) ! 0 = {6} \<and>
   writes (peel_init k4_support (replicate 7 0) 2) = [(0, 6, 2)] \<and>
   vec (peel_init k4_support (replicate 7 0) 2) ! 0 = {6} \<and>
   writes (the (peel_run first_min k4_pendant k4_support (replicate 7 0))) =
     [(0, 6, 2), (2, 0, 4), (2, 1, 4), (2, 2, 4), (2, 3, 4), (2, 4, 4), (2, 5, 4)] \<and>
   vec (the (peel_run first_min k4_pendant k4_support (replicate 7 0))) = [{6}, {}, {}] \<and>
   trussness (the (peel_run first_min k4_pendant k4_support (replicate 7 0))) =
     [4, 4, 4, 4, 4, 4, 2]"
  by code_simp

lemma k4_ear_lengths: "length k4_ear_support = igraph_ecount k4_ear"
  "length (replicate 9 (0::nat)) = length k4_ear_support" "k4_ear_support \<noteq> []"
  by (simp_all add: k4_ear_support_def k4_ear_def igraph_ecount_def)

theorem trussness_written_once_witness:
  "valid_graph k4_ear \<and> valid_tie_break first_max \<and>
   length k4_ear_support = igraph_ecount k4_ear \<and>
   length (replicate 9 (0::nat)) = length k4_ear_support \<and> k4_ear_support \<noteq> [] \<and>
   (\<exists>mx s ws. igraph_vector_int_max k4_ear_support = Some mx \<and>
       peel_run first_max k4_ear k4_ear_support (replicate 9 0) = Some s \<and>
       (\<forall>e<length k4_ear_support. length (filter (\<lambda>w. fst (snd w) = e) (writes s)) = 1) \<and>
       (\<forall>w\<in>set (writes s). snd (snd w) = fst w + 2 \<and>
          trussness s ! fst (snd w) = snd (snd w) \<and>
          (fst w = 0 \<longleftrightarrow> k4_ear_support ! fst (snd w) = 0)) \<and>
       writes s = writes (peel_init k4_ear_support (replicate 9 0) mx) @ ws \<and>
       vec (peel_init k4_ear_support (replicate 9 0) mx) =
         fill_levels k4_ear_support (replicate (mx + 1) {}) \<and>
       (\<forall>w\<in>set (writes (peel_init k4_ear_support (replicate 9 0) mx)).
          fst w = 0 \<and> fst (snd w) \<in> vec (peel_init k4_ear_support (replicate 9 0) mx) ! 0 \<and>
          fst (snd w) \<in> vec s ! 0) \<and>
       (\<forall>w\<in>set ws. 1 \<le> fst w \<and> (\<forall>k<length (vec s). fst (snd w) \<notin> vec s ! k)))"
  using trussness_written_once [OF k4_ear_valid first_max_valid k4_ear_lengths]
    k4_ear_valid first_max_valid k4_ear_lengths
  by blast

section \<open>A turn of the while loop, triangle by triangle\<close>

lemma check_neighbors_append:
  "check_neighbors g a b level (xs @ ys) s =
     Option.bind (check_neighbors g a b level xs s) (check_neighbors g a b level ys)"
  by (induction xs arbitrary: s) (auto split: option.splits)

lemma common_neighbors_set:
  assumes "a < vcount g" and "b < vcount g"
  shows "set (common_neighbors (truss_adjlist g) a b) = {n. adjacent g a n \<and> adjacent g b n}"
proof -
  have sa: "sorted (igraph_adjlist_get (truss_adjlist g) a)"
    and sb: "sorted (igraph_adjlist_get (truss_adjlist g) b)"
    using assms by (simp_all add: truss_adjlist_get)
  from intersect_sorted_set [OF sa sb] intersect_sorted_set [OF sb sa]
  show ?thesis
    by (auto simp: common_neighbors_def Let_def adjlist_set [OF assms(1)] adjlist_set [OF assms(2)])
qed

lemma side_not_seed:
  assumes "igraph_get_eid g a n = Some e1" and "igraph_get_eid g b n = Some e2"
    and "edges g ! seed = (a, b)" and "a \<noteq> b" and "adjacent g a n" and "adjacent g b n"
  shows "e1 \<noteq> e2" and "e1 \<noteq> seed" and "e2 \<noteq> seed"
proof -
  from assms(5,6) have ne: "a \<noteq> n" "b \<noteq> n" by (simp_all add: adjacent_def)
  note e1 = get_eid_ends [OF assms(1)] and e2 = get_eid_ends [OF assms(2)]
  from e1 e2 ne assms(4) show "e1 \<noteq> e2" by auto
  from e1 ne assms(3) show "e1 \<noteq> seed" by auto
  from e2 ne assms(3,4) show "e2 \<noteq> seed" by auto
qed

lemma loop_support_zero:
  assumes lt: "list_all (is_triangle g) ts"
    and s: "truss_support g (flatten_triangles ts) = Some sup0"
    and e: "e < igraph_ecount g" and lp: "fst (edges g ! e) = snd (edges g ! e)"
  shows "sup0 ! e = 0"
proof -
  from truss_support_counts [OF lt] s e
  have "sup0 ! e = length (filter (triangle_has_eid g e) ts)" by auto
  moreover have "\<not> triangle_has_eid g e t" if "t \<in> set ts" for t
  proof
    assume h: "triangle_has_eid g e t"
    obtain a b c where t: "t = (a, b, c)" by (cases t)
    from lt that t have "a \<noteq> b" "a \<noteq> c" "b \<noteq> c" by (auto simp: list_all_iff)
    moreover from h t have "igraph_get_eid g a b = Some e \<or> igraph_get_eid g a c = Some e \<or>
        igraph_get_eid g b c = Some e" by (auto simp: triangle_has_eid_def)
    ultimately show False using lp by (auto dest!: get_eid_ends)
  qed
  ultimately show ?thesis by (simp add: filter_empty_conv)
qed

lemma seed_two_ends:
  assumes fb: "valid_tie_break first" and tr: "length tr = length sup0"
    and lt: "list_all (is_triangle g) ts"
    and s: "truss_support g (flatten_triangles ts) = Some sup0"
    and r: "peel_reach first g sup0 tr level s" and l: "level < length (vec s)"
    and b: "vec s ! level \<noteq> {}"
  shows "\<exists>a b. igraph_edge g (first s level) = Some (a, b) \<and> a \<noteq> b"
proof -
  from truss_support_counts [OF lt] s have n: "length sup0 = igraph_ecount g" by auto
  from peel_reach_max [OF r] obtain mx where mx: "igraph_vector_int_max sup0 = Some mx" ..
  from peel_reach_inv [OF fb n tr mx r] have inv: "peel_inv sup0 mx level None s" .
  with l have lv: "level \<le> mx" by (simp add: peel_inv_def sizes_ok_def)
  from tie_break_member [OF fb inv lv b] have sd: "first s level \<in> vec s ! level" .
  from seed_in_bucket [OF inv lv sd] have sn: "first s level < length sup0"
    and ss: "support s ! first s level = level" by simp_all
  from inv sn ss have "1 \<le> sup0 ! first s level"
    by (auto simp: peel_inv_def levels_ok_def results_ok_def)
  with loop_support_zero [OF lt s, of "first s level"] sn n
  have "fst (edges g ! first s level) \<noteq> snd (edges g ! first s level)" by auto
  with sn n show ?thesis by (cases "edges g ! first s level") (simp add: igraph_edge_def)
qed

text \<open>
  C1: a turn of the while loop, in a run of the peeler, for a seed with two different ends
  \<open>a\<close> and \<open>b\<close>. The turn is the loop over the common neighbours, run on the state
  without the seed in its set, followed by the assignment for the seed. (In a run on the
  supports built from a list of triangles every seed has two different ends: a self-loop
  has support 0 and is completed before the first level; lemma \<open>seed_two_ends\<close>.) The common
  neighbours are the vertices adjacent to both ends, that is, the triangles the seed
  closes (each once, if the graph has no parallel edges). At each common neighbour \<open>n\<close>
  the loop has reached a state \<open>s1\<close>, the two lookups give edges \<open>e1\<close> and \<open>e2\<close>,
  different from each other and from the seed, and the visit leads to a state \<open>s2\<close>
  from which the loop goes on: if \<open>e1\<close> or \<open>e2\<close> is completed, \<open>s2\<close> is \<open>s1\<close>;
  if neither is, each of the two whose support is above the level has its support
  decremented by exactly 1, is put in the set of its new support and taken from the set of
  its old one, and is in the other sets as before; one whose support is at or below the
  level keeps its support and its sets; every other edge keeps its support and its sets,
  and \<open>completed\<close> and \<open>trussness\<close> do not change.
\<close>

theorem seed_triangle_demotion:
  assumes g: "valid_graph g" and fb: "valid_tie_break first"
    and n: "length sup0 = igraph_ecount g" and tr: "length tr = length sup0"
    and r: "peel_reach first g sup0 tr level s" and l: "level < length (vec s)"
    and b: "vec s ! level \<noteq> {}"
    and ie: "igraph_edge g (first s level) = Some (a, b)" and ab: "a \<noteq> b"
  shows "process_seed g (truss_adjlist g) level (first s level) s =
      map_option (record_seed level (first s level))
        (check_neighbors g a b level (common_neighbors (truss_adjlist g) a b)
           (s\<lparr>vec := (vec s)[level := vec s ! level - {first s level}]\<rparr>)) \<and>
    set (common_neighbors (truss_adjlist g) a b) = {n. adjacent g a n \<and> adjacent g b n} \<and>
    (no_parallel_edges g \<longrightarrow> distinct (common_neighbors (truss_adjlist g) a b)) \<and>
    (\<forall>pre n post. common_neighbors (truss_adjlist g) a b = pre @ n # post \<longrightarrow>
       (\<exists>e1 e2 s1 s2.
          igraph_get_eid g a n = Some e1 \<and> igraph_get_eid g b n = Some e2 \<and>
          e1 \<noteq> e2 \<and> e1 \<noteq> first s level \<and> e2 \<noteq> first s level \<and>
          check_neighbors g a b level pre
            (s\<lparr>vec := (vec s)[level := vec s ! level - {first s level}]\<rparr>) = Some s1 \<and>
          check_neighbors g a b level (pre @ [n])
            (s\<lparr>vec := (vec s)[level := vec s ! level - {first s level}]\<rparr>) = Some s2 \<and>
          check_neighbors g a b level (pre @ n # post)
            (s\<lparr>vec := (vec s)[level := vec s ! level - {first s level}]\<rparr>) =
            check_neighbors g a b level post s2 \<and>
          (completed s1 ! e1 \<or> completed s1 ! e2 \<longrightarrow> s2 = s1) \<and>
          (\<not> completed s1 ! e1 \<and> \<not> completed s1 ! e2 \<longrightarrow>
            (\<forall>e\<in>{e1, e2}.
               (level < support s1 ! e \<longrightarrow>
                  support s2 ! e + 1 = support s1 ! e \<and>
                  e \<in> vec s2 ! (support s1 ! e - 1) \<and>
                  e \<notin> vec s2 ! (support s1 ! e) \<and>
                  (\<forall>k<length (vec s1). k \<noteq> support s1 ! e \<longrightarrow> k \<noteq> support s1 ! e - 1 \<longrightarrow>
                     (e \<in> vec s2 ! k \<longleftrightarrow> e \<in> vec s1 ! k))) \<and>
               (support s1 ! e \<le> level \<longrightarrow>
                  support s2 ! e = support s1 ! e \<and>
                  (\<forall>k<length (vec s1). e \<in> vec s2 ! k \<longleftrightarrow> e \<in> vec s1 ! k))) \<and>
            (\<forall>x. x \<noteq> e1 \<longrightarrow> x \<noteq> e2 \<longrightarrow>
               support s2 ! x = support s1 ! x \<and>
               (\<forall>k<length (vec s1). x \<in> vec s2 ! k \<longleftrightarrow> x \<in> vec s1 ! k)) \<and>
            completed s2 = completed s1 \<and> trussness s2 = trussness s1)))"
proof (intro conjI allI impI)
  let ?p = "s\<lparr>vec := (vec s)[level := vec s ! level - {first s level}]\<rparr>"
  let ?cn = "common_neighbors (truss_adjlist g) a b"
  from ie show "process_seed g (truss_adjlist g) level (first s level) s =
      map_option (record_seed level (first s level)) (check_neighbors g a b level ?cn ?p)"
    by (simp add: process_seed_def)
  from igraph_edge_valid [OF g ie] have av: "a < vcount g" and bv: "b < vcount g" by simp_all
  from common_neighbors_set [OF av bv]
  show cs: "set ?cn = {n. adjacent g a n \<and> adjacent g b n}" .
  show "distinct ?cn" if "no_parallel_edges g"
    using common_neighbors_simple(2) [OF av bv that] .
  fix pre m post
  assume cn: "?cn = pre @ m # post"
  from peel_reach_max [OF r] obtain mx where mx: "igraph_vector_int_max sup0 = Some mx" ..
  from peel_reach_inv [OF fb n tr mx r] have inv: "peel_inv sup0 mx level None s" .
  with l have lv: "level \<le> mx" by (simp add: peel_inv_def sizes_ok_def)
  from tie_break_member [OF fb inv lv b] have sd: "first s level \<in> vec s ! level" .
  from erase_seed_inv [OF inv lv sd] have invp: "peel_inv sup0 mx level (Some (first s level)) ?p" .
  from ie have es: "edges g ! first s level = (a, b)"
    by (simp add: igraph_edge_def split: if_splits)
  from cn have mem: "m \<in> set ?cn" and pm: "set pre \<subseteq> set ?cn" by auto
  from mem cs have adj: "adjacent g a m" "adjacent g b m" by auto
  from common_neighbors_eid [OF av bv mem] obtain e1 e2 where
    e1: "igraph_get_eid g a m = Some e1" and e2: "igraph_get_eid g b m = Some e2" by blast
  from pm common_neighbors_eid [OF av bv]
  have "\<forall>x\<in>set pre. \<exists>e1 e2. igraph_get_eid g a x = Some e1 \<and> igraph_get_eid g b x = Some e2"
    by blast
  from check_neighbors_Some [OF this] obtain s1 where
    s1: "check_neighbors g a b level pre ?p = Some s1" by blast
  from check_neighbors_inv [OF n invp s1]
  have inv1: "peel_inv sup0 mx level (Some (first s level)) s1" .
  define s2 where "s2 = demote_pair level e1 e2 s1"
  from inv1 have ls: "length (support s1) = length sup0" and lvec: "length (vec s1) = mx + 1"
    and bound: "\<forall>e<length sup0. support s1 ! e \<le> mx"
    by (simp_all add: peel_inv_def sizes_ok_def)
  from igraph_get_eid_less [OF e1] igraph_get_eid_less [OF e2] n
  have l1: "e1 < length sup0" and l2: "e2 < length sup0" by simp_all
  from l1 l2 ls have i1: "e1 < length (support s1)" and i2: "e2 < length (support s1)"
    by simp_all
  from bound l1 l2 lvec have b1: "support s1 ! e1 < length (vec s1)"
    and b2: "support s1 ! e2 < length (vec s1)" by (simp_all add: less_Suc_eq_le)
  note ne = side_not_seed [OF e1 e2 es ab adj]
  note eff = demote_pair_effect [OF ne(1) i1 i2 b1 b2, of level, folded s2_def]
  have step: "check_neighbors g a b level (pre @ [m]) ?p = Some s2"
    using s1 e1 e2 by (simp add: check_neighbors_append s2_def)
  have rest: "check_neighbors g a b level (pre @ m # post) ?p = check_neighbors g a b level post s2"
    using s1 e1 e2 by (simp add: check_neighbors_append s2_def)
  from e1 e2 ne s1 step rest eff
  show "(\<exists>e1 e2 s1 s2.
          igraph_get_eid g a m = Some e1 \<and> igraph_get_eid g b m = Some e2 \<and>
          e1 \<noteq> e2 \<and> e1 \<noteq> first s level \<and> e2 \<noteq> first s level \<and>
          check_neighbors g a b level pre
            (s\<lparr>vec := (vec s)[level := vec s ! level - {first s level}]\<rparr>) = Some s1 \<and>
          check_neighbors g a b level (pre @ [m])
            (s\<lparr>vec := (vec s)[level := vec s ! level - {first s level}]\<rparr>) = Some s2 \<and>
          check_neighbors g a b level (pre @ m # post)
            (s\<lparr>vec := (vec s)[level := vec s ! level - {first s level}]\<rparr>) =
            check_neighbors g a b level post s2 \<and>
          (completed s1 ! e1 \<or> completed s1 ! e2 \<longrightarrow> s2 = s1) \<and>
          (\<not> completed s1 ! e1 \<and> \<not> completed s1 ! e2 \<longrightarrow>
            (\<forall>e\<in>{e1, e2}.
               (level < support s1 ! e \<longrightarrow>
                  support s2 ! e + 1 = support s1 ! e \<and>
                  e \<in> vec s2 ! (support s1 ! e - 1) \<and>
                  e \<notin> vec s2 ! (support s1 ! e) \<and>
                  (\<forall>k<length (vec s1). k \<noteq> support s1 ! e \<longrightarrow> k \<noteq> support s1 ! e - 1 \<longrightarrow>
                     (e \<in> vec s2 ! k \<longleftrightarrow> e \<in> vec s1 ! k))) \<and>
               (support s1 ! e \<le> level \<longrightarrow>
                  support s2 ! e = support s1 ! e \<and>
                  (\<forall>k<length (vec s1). e \<in> vec s2 ! k \<longleftrightarrow> e \<in> vec s1 ! k))) \<and>
            (\<forall>x. x \<noteq> e1 \<longrightarrow> x \<noteq> e2 \<longrightarrow>
               support s2 ! x = support s1 ! x \<and>
               (\<forall>k<length (vec s1). x \<in> vec s2 ! k \<longleftrightarrow> x \<in> vec s1 ! k)) \<and>
            completed s2 = completed s1 \<and> trussness s2 = trussness s1))"
    by blast
qed

lemma k4_ear_enter: "peel_reach first_min k4_ear k4_ear_support (replicate 9 0) 1
    (peel_init k4_ear_support (replicate 9 0) 3)"
  by (rule peel_reach.enter) (simp add: k4_ear_support_def)

theorem seed_triangle_demotion_witness:
  "valid_graph k4_ear \<and> valid_tie_break first_min \<and>
   length k4_ear_support = igraph_ecount k4_ear \<and>
   length (replicate 9 (0::nat)) = length k4_ear_support \<and>
   peel_reach first_min k4_ear k4_ear_support (replicate 9 0) 1
     (peel_init k4_ear_support (replicate 9 0) 3) \<and>
   1 < length (vec (peel_init k4_ear_support (replicate 9 0) 3)) \<and>
   vec (peel_init k4_ear_support (replicate 9 0) 3) ! 1 = {6, 7} \<and>
   first_min (peel_init k4_ear_support (replicate 9 0) 3) 1 = 6 \<and>
   igraph_edge k4_ear 6 = Some (0, 4) \<and> (0::nat) \<noteq> 4 \<and>
   common_neighbors (truss_adjlist k4_ear) 0 4 = [] @ 1 # [] \<and>
   igraph_get_eid k4_ear 0 1 = Some 0 \<and> igraph_get_eid k4_ear 4 1 = Some 7 \<and>
   support ear_popped ! 0 = 3 \<and> support ear_popped ! 7 = 1 \<and>
   (\<exists>s2. check_neighbors k4_ear 0 4 1 ([] @ [1]) ear_popped = Some s2 \<and>
      process_seed k4_ear (truss_adjlist k4_ear) 1 6 (peel_init k4_ear_support (replicate 9 0) 3) =
        Some (record_seed 1 6 s2) \<and>
      support s2 ! 0 + 1 = 3 \<and> 0 \<in> vec s2 ! 2 \<and> 0 \<notin> vec s2 ! 3 \<and>
      support s2 ! 7 = 1 \<and> completed s2 = completed ear_popped)"
proof -
  let ?s = "peel_init k4_ear_support (replicate 9 0) 3"
  have l: "1 < length (vec ?s)" by code_simp
  have v: "vec ?s ! 1 = {6, 7}" by code_simp
  then have b: "vec ?s ! 1 \<noteq> {}" by simp
  have f: "first_min ?s 1 = 6" by code_simp
  have ie: "igraph_edge k4_ear 6 = Some (0, 4)" by code_simp
  with f have ie': "igraph_edge k4_ear (first_min ?s 1) = Some (0, 4)" by simp
  have cn: "common_neighbors (truss_adjlist k4_ear) 0 4 = [] @ 1 # []" by code_simp
  have i1: "igraph_get_eid k4_ear 0 1 = Some 0" by code_simp
  have i2: "igraph_get_eid k4_ear 4 1 = Some 7" by code_simp
  have c1: "\<not> completed ear_popped ! 0" by code_simp
  have c2: "\<not> completed ear_popped ! 7" by code_simp
  have u1: "support ear_popped ! 0 = 3" by code_simp
  have u2: "support ear_popped ! 7 = 1" by code_simp
  have ab: "(0::nat) \<noteq> 4" by simp
  note t = seed_triangle_demotion [OF k4_ear_valid first_min_valid k4_ear_lengths(1,2)
      k4_ear_enter l b ie' ab, unfolded f, folded ear_popped_def]
  note ps = t [THEN conjunct1]
  note t4 = t [THEN conjunct2, THEN conjunct2, THEN conjunct2, rule_format, OF cn]
  from t4 obtain e1 e2 s1 s2 where all:
     "igraph_get_eid k4_ear 0 1 = Some e1 \<and> igraph_get_eid k4_ear 4 1 = Some e2 \<and>
      e1 \<noteq> e2 \<and> e1 \<noteq> 6 \<and> e2 \<noteq> 6 \<and>
      check_neighbors k4_ear 0 4 1 [] ear_popped = Some s1 \<and>
      check_neighbors k4_ear 0 4 1 ([] @ [1]) ear_popped = Some s2 \<and>
      check_neighbors k4_ear 0 4 1 ([] @ 1 # []) ear_popped =
        check_neighbors k4_ear 0 4 1 [] s2 \<and>
      (completed s1 ! e1 \<or> completed s1 ! e2 \<longrightarrow> s2 = s1) \<and>
      (\<not> completed s1 ! e1 \<and> \<not> completed s1 ! e2 \<longrightarrow>
            (\<forall>e\<in>{e1, e2}.
               (1 < support s1 ! e \<longrightarrow>
                  support s2 ! e + 1 = support s1 ! e \<and>
                  e \<in> vec s2 ! (support s1 ! e - 1) \<and>
                  e \<notin> vec s2 ! (support s1 ! e) \<and>
                  (\<forall>k<length (vec s1). k \<noteq> support s1 ! e \<longrightarrow> k \<noteq> support s1 ! e - 1 \<longrightarrow>
                     (e \<in> vec s2 ! k \<longleftrightarrow> e \<in> vec s1 ! k))) \<and>
               (support s1 ! e \<le> 1 \<longrightarrow>
                  support s2 ! e = support s1 ! e \<and>
                  (\<forall>k<length (vec s1). e \<in> vec s2 ! k \<longleftrightarrow> e \<in> vec s1 ! k))) \<and>
            (\<forall>x. x \<noteq> e1 \<longrightarrow> x \<noteq> e2 \<longrightarrow>
               support s2 ! x = support s1 ! x \<and>
               (\<forall>k<length (vec s1). x \<in> vec s2 ! k \<longleftrightarrow> x \<in> vec s1 ! k)) \<and>
            completed s2 = completed s1 \<and> trussness s2 = trussness s1)"
    by (elim exE) (rule that)
  note g1 = all [THEN conjunct1]
  note r = all [THEN conjunct2]
  note g2 = r [THEN conjunct1]
  note r = r [THEN conjunct2, THEN conjunct2, THEN conjunct2, THEN conjunct2]
  note q1 = r [THEN conjunct1]
  note r = r [THEN conjunct2]
  note q2 = r [THEN conjunct1]
  note r = r [THEN conjunct2]
  note q3 = r [THEN conjunct1]
  note eff = r [THEN conjunct2, THEN conjunct2]
  from g1 i1 have e1: "e1 = 0" by simp
  from g2 i2 have e2: "e2 = 7" by simp
  from q1 have s1: "s1 = ear_popped" by simp
  from c1 c2 have nc: "\<not> completed s1 ! e1 \<and> \<not> completed s1 ! e2" unfolding e1 e2 s1 by simp
  note eff' = eff [rule_format, OF nc, unfolded e1 e2 s1]
  note both = eff' [THEN conjunct1]
  have m0: "(0::nat) \<in> {0, 7}" and m7: "(7::nat) \<in> {0, 7}" by simp_all
  note at0 = both [rule_format, OF m0, THEN conjunct1]
  note at7 = both [rule_format, OF m7, THEN conjunct2]
  from u1 have "1 < support ear_popped ! 0" by simp
  from at0 [rule_format, OF this] have
    d1: "support s2 ! 0 + 1 = support ear_popped ! 0 \<and>
           0 \<in> vec s2 ! (support ear_popped ! 0 - 1) \<and> 0 \<notin> vec s2 ! (support ear_popped ! 0)"
    by simp
  from u2 have "support ear_popped ! 7 \<le> 1" by simp
  from at7 [rule_format, OF this] have d2: "support s2 ! 7 = support ear_popped ! 7"
    by simp
  from eff' have d3: "completed s2 = completed ear_popped" by simp
  from d1 u1 have r1: "support s2 ! 0 + 1 = 3 \<and> 0 \<in> vec s2 ! 2 \<and> 0 \<notin> vec s2 ! 3" by simp
  from d2 u2 have r2: "support s2 ! 7 = 1" by simp
  from q3 q2 have "check_neighbors k4_ear 0 4 1 ([] @ 1 # []) ear_popped = Some s2" by simp
  with ps cn have r3: "process_seed k4_ear (truss_adjlist k4_ear) 1 6 ?s = Some (record_seed 1 6 s2)"
    by simp
  from k4_ear_valid first_min_valid k4_ear_lengths(1,2) k4_ear_enter l v f ie ab cn i1 i2 u1 u2
    q2 r1 r2 r3 d3
  show ?thesis by blast
qed

end
